theory Spec2Isabelle
  imports Main "HOL-Library.Word" "HOL-Library.AList"
begin

unbundle bit_operations_syntax

section \<open>The united queue: topics, lines and the broker\<close>

text \<open>
  A shallow embedding of the topic (its log, the push path, reclamation) and of the broker
  in \<^verbatim>\<open>uQueue.go\<close> (registry, key routing, recovery). Locks protect against
  other goroutines and are not part of the sequential behaviour modelled here, with one
  exception: a goroutine that takes a \<^verbatim>\<open>sync.RWMutex\<close> it already holds never returns,
  and that outcome is a value of the model. Log output is dropped. Go maps are association
  lists with distinct keys; the order of the list stands for the order in which
  \<^verbatim>\<open>range\<close> happens to visit the map.
\<close>

subsection \<open>Basic types\<close>

type_synonym byte = "8 word"
type_synonym bytes = "byte list"
type_synonym uint64 = "64 word"

text \<open>\<^verbatim>\<open>time.Duration\<close>: a signed count of nanoseconds. The code only compares it with 0.\<close>
type_synonym Duration = int

text \<open>
  The error codes of \<^verbatim>\<open>NewError(code, message)\<close>; the message is dropped.
  \<open>ErrStorage\<close> is an error of the key/value backend handed on as it is.
\<close>
datatype error =
    ErrBadKey | ErrBadRequest | ErrTopicExisted | ErrTopicNotExisted
  | ErrLineExisted | ErrLineNotExisted | ErrInternalError
  | ErrNone | ErrNotFound | ErrStorage

text \<open>How a call ends: it returns, it panics, or it blocks for ever on a lock it holds.\<close>
datatype 'a outcome = Returns 'a | Panics | Deadlocks

subsection \<open>The key/value backend\<close>

text \<open>
  Modelled from the spec: the backend \<^verbatim>\<open>store.Storage\<close> is outside the repository's
  sources; its contract is \<^verbatim>\<open>get(key) -> bytes | NotFound\<close>, \<^verbatim>\<open>set(key, bytes) -> ok | err\<close>,
  \<^verbatim>\<open>del(key) -> ok | err\<close>. The store is a map, and \<open>faults\<close> says which of the coming
  calls fail: every call takes the first entry, \<open>True\<close> makes it fail and leave the map
  as it is, and when the list is used up no call fails.
\<close>
record storage =
  kv :: "string \<rightharpoonup> bytes"
  faults :: "bool list"

definition fault_now :: "storage \<Rightarrow> bool" where
  "fault_now s = (case faults s of [] \<Rightarrow> False | f # _ \<Rightarrow> f)"

definition tick :: "storage \<Rightarrow> storage" where
  "tick s = s\<lparr>faults := tl (faults s)\<rparr>"

definition Get :: "storage \<Rightarrow> string \<Rightarrow> (error + bytes) \<times> storage" where
  "Get s key =
     (if fault_now s then (Inl ErrStorage, tick s)
      else case kv s key of
             None \<Rightarrow> (Inl ErrStorage, tick s)
           | Some v \<Rightarrow> (Inr v, tick s))"

definition Set :: "storage \<Rightarrow> string \<Rightarrow> bytes \<Rightarrow> error option \<times> storage" where
  "Set s key v =
     (if fault_now s then (Some ErrStorage, tick s)
      else (None, (tick s)\<lparr>kv := (kv s)(key \<mapsto> v)\<rparr>))"

definition Del :: "storage \<Rightarrow> string \<Rightarrow> error option \<times> storage" where
  "Del s key =
     (if fault_now s then (Some ErrStorage, tick s)
      else (None, (tick s)\<lparr>kv := (kv s)(key := None)\<rparr>))"

text \<open>\<^verbatim>\<open>UnitedQueue.setData\<close>, \<^verbatim>\<open>getData\<close>, \<^verbatim>\<open>delData\<close>: a backend error becomes \<open>ErrInternalError\<close>.\<close>

definition setData :: "storage \<Rightarrow> string \<Rightarrow> bytes \<Rightarrow> error option \<times> storage" where
  "setData s key data =
     (case Set s key data of
        (Some _, s') \<Rightarrow> (Some ErrInternalError, s')
      | (None, s') \<Rightarrow> (None, s'))"

definition getData :: "storage \<Rightarrow> string \<Rightarrow> (error + bytes) \<times> storage" where
  "getData s key =
     (case Get s key of
        (Inl _, s') \<Rightarrow> (Inl ErrInternalError, s')
      | (Inr data, s') \<Rightarrow> (Inr data, s'))"

definition delData :: "storage \<Rightarrow> string \<Rightarrow> error option \<times> storage" where
  "delData s key =
     (case Del s key of
        (Some _, s') \<Rightarrow> (Some ErrInternalError, s')
      | (None, s') \<Rightarrow> (None, s'))"

subsection \<open>Keys and numbers\<close>

definition StorageKeyWord :: string where "StorageKeyWord = ''UnitedQueueKey''"
definition KeyTopicHead :: string where "KeyTopicHead = '':head''"
definition KeyTopicTail :: string where "KeyTopicTail = '':tail''"
definition KeyLineRecycle :: string where "KeyLineRecycle = '':recycle''"

definition digit_char :: "nat \<Rightarrow> char" where
  "digit_char d = ''0123456789'' ! d"

text \<open>The decimal digits of a number, most significant first, as \<^verbatim>\<open>strconv.FormatUint(n, 10)\<close>.\<close>
fun FormatUint :: "nat \<Rightarrow> string" where
  "FormatUint n =
     (if n < 10 then [digit_char n] else FormatUint (n div 10) @ [digit_char (n mod 10)])"

declare FormatUint.simps [simp del]

text \<open>
  Modelled from the spec: \<^verbatim>\<open>utils.Acatui(str, b, n)\<close> is outside the repository's sources;
  the payload of id \<open>i\<close> lives at key \<^verbatim>\<open>"{topic}:{i}"\<close>, so it is the string, the separator
  and the decimal digits of the number.
\<close>
definition Acatui :: "string \<Rightarrow> string \<Rightarrow> uint64 \<Rightarrow> string" where
  "Acatui str b n = str @ b @ FormatUint (unat n)"

text \<open>\<^verbatim>\<open>binary.LittleEndian.PutUint64\<close> on a fresh 8-byte slice.\<close>
definition PutUint64 :: "uint64 \<Rightarrow> bytes" where
  "PutUint64 v = map (\<lambda>i. ucast (drop_bit (8 * i) v)) [0..<8]"

text \<open>\<^verbatim>\<open>binary.LittleEndian.Uint64\<close>: it reads \<^verbatim>\<open>b[7]\<close> first and so panics on a shorter slice.\<close>
definition Uint64 :: "bytes \<Rightarrow> uint64 option" where
  "Uint64 b =
     (if length b < 8 then None
      else Some (foldr (\<lambda>x acc. ucast x OR push_bit 8 acc) (take 8 b) 0))"

text \<open>A 64-bit counter below another one does not wrap when it is incremented.\<close>
lemma unat_succ_of_less:
  fixes x y :: uint64
  assumes "x < y"
  shows "unat (x + 1) = Suc (unat x)"
proof -
  have "unat x < unat y"
    using assms by (simp add: word_less_nat_alt)
  moreover have "unat y < 2 ^ LENGTH(64)"
    by (rule unsigned_less)
  ultimately have "unat x + unat (1::uint64) < 2 ^ LENGTH(64)"
    by simp
  then have "unat (x + 1) = unat x + unat (1::uint64)"
    by (simp only: unat_add_lem)
  then show ?thesis
    by simp
qed

subsection \<open>Lines and topics\<close>

text \<open>
  The fields of \<^verbatim>\<open>line\<close> and \<^verbatim>\<open>lineStore\<close> as \<^verbatim>\<open>newLine\<close> and \<^verbatim>\<open>loadLine\<close> set them (the
  back pointer \<^verbatim>\<open>l.t\<close> is the topic passed to each function). Field names carry the
  prefix of their struct, since both structs have a \<^verbatim>\<open>name\<close> and a \<^verbatim>\<open>head\<close>.
\<close>
record inflightMessage =
  Tid :: uint64
  Exptime :: int

record lineStore =
  Head :: uint64
  Ihead :: uint64
  Inflights :: "inflightMessage list"

record line =
  l_name :: string
  l_head :: uint64
  l_recycle :: Duration
  l_recycleKey :: string
  l_inflight :: "inflightMessage list"
  l_ihead :: uint64
  l_imap :: "uint64 \<rightharpoonup> bool"

record topic =
  t_name :: string
  t_lines :: "(string \<times> line) list"
  t_head :: uint64
  t_headKey :: string
  t_tail :: uint64
  t_tailKey :: string

text \<open>
  The encoders and decoders of the libraries (\<^verbatim>\<open>encoding/gob\<close>, \<^verbatim>\<open>time.Duration.String\<close>,
  \<^verbatim>\<open>time.ParseDuration\<close>) are parameters: every theorem holds for any choice of them.
\<close>
record codec =
  encQueue :: "string list \<Rightarrow> bytes option"
  decQueue :: "bytes \<Rightarrow> string list option"
  encTopic :: "string list \<Rightarrow> bytes option"
  decTopic :: "bytes \<Rightarrow> string list option"
  encLine :: "lineStore \<Rightarrow> bytes option"
  decLine :: "bytes \<Rightarrow> lineStore option"
  fmtDuration :: "Duration \<Rightarrow> bytes"
  ParseDuration :: "bytes \<Rightarrow> Duration option"

subsection \<open>Topic anchors and the push path\<close>

definition exportHead :: "topic \<Rightarrow> storage \<Rightarrow> error option \<times> storage" where
  "exportHead t s =
     (case setData s (t_headKey t) (PutUint64 (t_head t)) of
        (Some _, s') \<Rightarrow> (Some ErrInternalError, s')
      | (None, s') \<Rightarrow> (None, s'))"

definition exportTail :: "topic \<Rightarrow> storage \<Rightarrow> error option \<times> storage" where
  "exportTail t s =
     (case setData s (t_tailKey t) (PutUint64 (t_tail t)) of
        (Some _, s') \<Rightarrow> (Some ErrInternalError, s')
      | (None, s') \<Rightarrow> (None, s'))"

definition push :: "topic \<Rightarrow> storage \<Rightarrow> bytes \<Rightarrow> error option \<times> topic \<times> storage" where
  "push t s data =
     (case setData s (Acatui (t_name t) '':'' (t_tail t)) data of
        (Some err, s1) \<Rightarrow> (Some err, t, s1)
      | (None, s1) \<Rightarrow>
          (let t1 = t\<lparr>t_tail := t_tail t + 1\<rparr> in
           case exportTail t1 s1 of
             (Some err, s2) \<Rightarrow> (Some err, t1\<lparr>t_tail := t_tail t1 - 1\<rparr>, s2)
           | (None, s2) \<Rightarrow> (None, t1, s2)))"

text \<open>The loop of \<^verbatim>\<open>mPush\<close> over the batch; \<open>oldTail\<close> is the tail saved before it.\<close>
fun mPush_loop :: "uint64 \<Rightarrow> topic \<Rightarrow> storage \<Rightarrow> bytes list \<Rightarrow> error option \<times> topic \<times> storage" where
  "mPush_loop oldTail t s [] = (None, t, s)"
| "mPush_loop oldTail t s (data # datas) =
     (if length data \<le> 0 then (Some ErrBadRequest, t, s)
      else case setData s (Acatui (t_name t) '':'' (t_tail t)) data of
             (Some err, s1) \<Rightarrow> (Some err, t\<lparr>t_tail := oldTail\<rparr>, s1)
           | (None, s1) \<Rightarrow> mPush_loop oldTail (t\<lparr>t_tail := t_tail t + 1\<rparr>) s1 datas)"

definition mPush :: "topic \<Rightarrow> storage \<Rightarrow> bytes list \<Rightarrow> error option \<times> topic \<times> storage" where
  "mPush t s datas =
     (let oldTail = t_tail t in
      case mPush_loop oldTail t s datas of
        (Some err, t1, s1) \<Rightarrow> (Some err, t1, s1)
      | (None, t1, s1) \<Rightarrow>
          (case exportTail t1 s1 of
             (Some err, s2) \<Rightarrow> (Some err, t1\<lparr>t_tail := oldTail\<rparr>, s2)
           | (None, s2) \<Rightarrow> (None, t1, s2)))"

subsection \<open>Reclamation: \<^verbatim>\<open>getEnd\<close> and \<^verbatim>\<open>clean\<close>\<close>

text \<open>The loop of \<^verbatim>\<open>getEnd\<close> over the lines, \<open>end\<close> starting at the tail.\<close>
fun getEnd_loop :: "uint64 \<Rightarrow> (string \<times> line) list \<Rightarrow> uint64" where
  "getEnd_loop end [] = end"
| "getEnd_loop end ((_, l) # ls) =
     getEnd_loop
       (if l_recycle l > 0 then (if l_ihead l < end then l_ihead l else end)
        else (if l_head l < end then l_head l else end)) ls"

definition getEnd :: "topic \<Rightarrow> uint64" where
  "getEnd t = (if length (t_lines t) = 0 then t_head t else getEnd_loop (t_tail t) (t_lines t))"

text \<open>
  What a clean pass sees of the world at each iteration: whether the quit channel is
  closed and whether the deadline has passed. When the list is used up neither holds.
\<close>
type_synonym clean_env = "(bool \<times> bool) list"

definition quit_now :: "clean_env \<Rightarrow> bool" where
  "quit_now env = (case env of [] \<Rightarrow> False | (q, _) # _ \<Rightarrow> q)"

definition deadline_now :: "clean_env \<Rightarrow> bool" where
  "deadline_now env = (case env of [] \<Rightarrow> False | (_, d) # _ \<Rightarrow> d)"

function clean_loop :: "uint64 \<Rightarrow> clean_env \<Rightarrow> topic \<Rightarrow> storage \<Rightarrow> bool \<times> topic \<times> storage" where
  "clean_loop ending env t s =
     (if t_head t < ending then
        (if quit_now env then (True, t, s)
         else if deadline_now env then (False, t, s)
         else case delData s (Acatui (t_name t) '':'' (t_head t)) of
                (Some _, s1) \<Rightarrow> (False, t, s1)
              | (None, s1) \<Rightarrow>
                  (let t1 = t\<lparr>t_head := t_head t + 1\<rparr> in
                   case exportHead t1 s1 of
                     (Some _, s2) \<Rightarrow> (False, t1, s2)
                   | (None, s2) \<Rightarrow> clean_loop ending (tl env) t1 s2))
      else (False, t, s))"
  by pat_completeness auto
termination
proof (relation "measure (\<lambda>(ending, env, t, s). unat ending - unat (t_head t))")
  show "wf (measure (\<lambda>(ending, env, t, s). unat ending - unat (t_head t)))"
    by simp
next
  fix ending :: uint64 and env :: clean_env and t :: topic and s :: storage
    and x s1 t1 y s2
  assume lt: "t_head t < ending" and t1: "t1 = t\<lparr>t_head := t_head t + 1\<rparr>"
  from lt have "unat (t_head t + 1) = Suc (unat (t_head t))"
    by (rule unat_succ_of_less)
  moreover from lt have "unat (t_head t) < unat ending"
    by (simp add: word_less_nat_alt)
  ultimately show "((ending, tl env, t1, s2), (ending, env, t, s))
      \<in> measure (\<lambda>(ending, env, t, s). unat ending - unat (t_head t))"
    using t1 by simp
qed

declare clean_loop.simps [simp del]

definition clean :: "clean_env \<Rightarrow> topic \<Rightarrow> storage \<Rightarrow> bool \<times> topic \<times> storage" where
  "clean env t s = clean_loop (getEnd t) env t s"

subsection \<open>Line operations\<close>

text \<open>
  Modelled from the spec: \<^verbatim>\<open>line.exportLine\<close> is outside the repository's sources; the
  line catalog, with head, ihead and the in-flight records, is persisted at
  \<^verbatim>\<open>"{topic}/{line}"\<close>.
\<close>
definition exportLine :: "codec \<Rightarrow> topic \<Rightarrow> line \<Rightarrow> storage \<Rightarrow> error option \<times> storage" where
  "exportLine c t l s =
     (case encLine c \<lparr>Head = l_head l, Ihead = l_ihead l, Inflights = l_inflight l\<rparr> of
        None \<Rightarrow> (Some ErrInternalError, s)
      | Some b \<Rightarrow> setData s (t_name t @ ''/'' @ l_name l) b)"

text \<open>
  Modelled from the spec: \<^verbatim>\<open>line.exportRecycle\<close> is outside the repository's sources; the
  recycle duration is persisted as text at \<^verbatim>\<open>"{topic}/{line}:recycle"\<close>, the line's
  \<^verbatim>\<open>recycleKey\<close>.
\<close>
definition exportRecycle :: "codec \<Rightarrow> line \<Rightarrow> storage \<Rightarrow> error option \<times> storage" where
  "exportRecycle c l s = setData s (l_recycleKey l) (fmtDuration c (l_recycle l))"

text \<open>
  Modelled from the spec: \<^verbatim>\<open>line.empty\<close> is outside the repository's sources; it sets
  \<^verbatim>\<open>ihead = head\<close> and clears \<^verbatim>\<open>inflight\<close> and \<^verbatim>\<open>imap\<close>. The spec names no way for it to
  fail.
\<close>
definition line_empty :: "line \<Rightarrow> error option \<times> line" where
  "line_empty l = (None, l\<lparr>l_ihead := l_head l, l_inflight := [], l_imap := Map.empty\<rparr>)"

text \<open>\<^verbatim>\<open>topic.getData\<close>: the payload of an id.\<close>
definition topic_getData :: "topic \<Rightarrow> storage \<Rightarrow> uint64 \<Rightarrow> (error + bytes) \<times> storage" where
  "topic_getData t s id' = getData s (Acatui (t_name t) '':'' id')"

text \<open>
  Modelled from the spec: \<^verbatim>\<open>line.pop\<close> is outside the repository's sources. Step 1:
  an expired front record of a line with a positive recycle is delivered again and moves
  to the back with a new expiry. Step 2: a line whose head is the topic's tail fails with
  \<open>ErrNone\<close>. Steps 3 and 4 (\<open>line_pop_head\<close>): the payload at \<^verbatim>\<open>head\<close> is fetched, and
  the line either advances \<^verbatim>\<open>head\<close> and \<^verbatim>\<open>ihead\<close> (recycle 0) or records the id as in
  flight and advances \<^verbatim>\<open>head\<close>. \<open>now\<close> is the clock.
\<close>
definition line_pop_head ::
  "topic \<Rightarrow> line \<Rightarrow> int \<Rightarrow> storage \<Rightarrow> (error + uint64 \<times> bytes) \<times> line \<times> storage" where
  "line_pop_head t l now s =
     (if l_head l = t_tail t then (Inl ErrNone, l, s)
      else case topic_getData t s (l_head l) of
             (Inl err, s1) \<Rightarrow> (Inl err, l, s1)
           | (Inr data, s1) \<Rightarrow>
               if l_recycle l = 0 then
                 (Inr (l_head l, data),
                  l\<lparr>l_head := l_head l + 1, l_ihead := l_ihead l + 1\<rparr>, s1)
               else
                 (Inr (l_head l, data),
                  l\<lparr>l_inflight := l_inflight l @ [\<lparr>Tid = l_head l, Exptime = now + l_recycle l\<rparr>],
                    l_imap := (l_imap l)(l_head l \<mapsto> True),
                    l_head := l_head l + 1\<rparr>, s1))"

definition line_pop ::
  "topic \<Rightarrow> line \<Rightarrow> int \<Rightarrow> storage \<Rightarrow> (error + uint64 \<times> bytes) \<times> line \<times> storage" where
  "line_pop t l now s =
     (case l_inflight l of
        [] \<Rightarrow> line_pop_head t l now s
      | m # ms \<Rightarrow>
          if Exptime m \<le> now \<and> l_recycle l > 0 then
            (case topic_getData t s (Tid m) of
               (Inl err, s1) \<Rightarrow> (Inl err, l, s1)
             | (Inr data, s1) \<Rightarrow>
                 (Inr (Tid m, data),
                  l\<lparr>l_inflight := ms @ [m\<lparr>Exptime := now + l_recycle l\<rparr>]\<rparr>, s1))
          else line_pop_head t l now s)"

text \<open>
  Modelled from the spec: \<^verbatim>\<open>line.mPop\<close> is outside the repository's sources; it repeats
  \<^verbatim>\<open>pop\<close> up to \<open>n\<close> times, stops on empty or error and returns what it has.
\<close>
fun line_mPop ::
  "topic \<Rightarrow> line \<Rightarrow> nat \<Rightarrow> int \<Rightarrow> storage \<Rightarrow> (uint64 \<times> bytes) list \<times> line \<times> storage" where
  "line_mPop t l 0 now s = ([], l, s)"
| "line_mPop t l (Suc n) now s =
     (case line_pop t l now s of
        (Inl _, l1, s1) \<Rightarrow> ([], l1, s1)
      | (Inr m, l1, s1) \<Rightarrow>
          (case line_mPop t l1 n now s1 of (ms, l2, s2) \<Rightarrow> (m # ms, l2, s2)))"

text \<open>The sweep of \<^verbatim>\<open>ihead\<close> past ids that are no longer in flight.\<close>
function sweep_ihead :: "line \<Rightarrow> line" where
  "sweep_ihead l =
     (if l_ihead l < l_head l \<and> l_imap l (l_ihead l) \<noteq> Some True
      then sweep_ihead (l\<lparr>l_imap := (l_imap l)(l_ihead l := None), l_ihead := l_ihead l + 1\<rparr>)
      else l)"
  by pat_completeness auto
termination
proof (relation "measure (\<lambda>l. unat (l_head l) - unat (l_ihead l))")
  show "wf (measure (\<lambda>l. unat (l_head l) - unat (l_ihead l)))"
    by simp
next
  fix l :: line
  assume "l_ihead l < l_head l \<and> l_imap l (l_ihead l) \<noteq> Some True"
  then have lt: "l_ihead l < l_head l"
    by simp
  from lt have "unat (l_ihead l + 1) = Suc (unat (l_ihead l))"
    by (rule unat_succ_of_less)
  moreover from lt have "unat (l_ihead l) < unat (l_head l)"
    by (simp add: word_less_nat_alt)
  ultimately show "(l\<lparr>l_imap := (l_imap l)(l_ihead l := None), l_ihead := l_ihead l + 1\<rparr>, l)
      \<in> measure (\<lambda>l. unat (l_head l) - unat (l_ihead l))"
    by simp
qed

declare sweep_ihead.simps [simp del]

text \<open>
  Modelled from the spec: \<^verbatim>\<open>line.confirm\<close> is outside the repository's sources. An id
  outside \<^verbatim>\<open>[ihead, head)\<close> or not in flight fails with \<open>ErrNotFound\<close>; otherwise the record
  leaves \<^verbatim>\<open>inflight\<close>, \<^verbatim>\<open>imap[id]\<close> becomes false and \<^verbatim>\<open>ihead\<close> is swept.
\<close>
definition line_confirm :: "line \<Rightarrow> uint64 \<Rightarrow> error option \<times> line" where
  "line_confirm l id' =
     (if id' < l_ihead l \<or> l_head l \<le> id' then (Some ErrNotFound, l)
      else if id' \<notin> set (map Tid (l_inflight l)) then (Some ErrNotFound, l)
      else (None, sweep_ihead
              (l\<lparr>l_inflight := filter (\<lambda>m. Tid m \<noteq> id') (l_inflight l),
                 l_imap := (l_imap l)(id' \<mapsto> False)\<rparr>)))"

subsection \<open>Topic operations on its lines\<close>

text \<open>\<^verbatim>\<open>genTopicStore\<close> and \<^verbatim>\<open>exportTopic\<close>: the catalog of line names at key \<^verbatim>\<open>t.name\<close>.\<close>
definition genTopicStore :: "topic \<Rightarrow> string list" where
  "genTopicStore t = map (\<lambda>(_, l). l_name l) (t_lines t)"

definition exportTopic :: "codec \<Rightarrow> topic \<Rightarrow> storage \<Rightarrow> error option \<times> storage" where
  "exportTopic c t s =
     (case encTopic c (genTopicStore t) of
        None \<Rightarrow> (Some ErrInternalError, s)
      | Some b \<Rightarrow>
          (case setData s (t_name t) b of
             (Some _, s') \<Rightarrow> (Some ErrInternalError, s')
           | (None, s') \<Rightarrow> (None, s')))"

definition newLine ::
  "codec \<Rightarrow> topic \<Rightarrow> string \<Rightarrow> Duration \<Rightarrow> storage \<Rightarrow> (error + line) \<times> storage" where
  "newLine c t name recycle s =
     (let l = \<lparr>l_name = name, l_head = t_head t, l_recycle = recycle,
               l_recycleKey = t_name t @ ''/'' @ name @ KeyLineRecycle,
               l_inflight = [], l_ihead = t_head t, l_imap = Map.empty\<rparr> in
      case exportLine c t l s of
        (Some err, s1) \<Rightarrow> (Inl err, s1)
      | (None, s1) \<Rightarrow>
          (case exportRecycle c l s1 of
             (Some err, s2) \<Rightarrow> (Inl err, s2)
           | (None, s2) \<Rightarrow> (Inr l, s2)))"

text \<open>
  \<^verbatim>\<open>createLine\<close>. The announcement to the coordinator (\<^verbatim>\<open>registerLine\<close>) has no effect
  on the topic or the store and its result is ignored. When \<^verbatim>\<open>exportTopic\<close> fails, the
  code takes \<^verbatim>\<open>linesLock\<close> again while it still holds it, and never returns.
\<close>
definition createLine ::
  "codec \<Rightarrow> topic \<Rightarrow> string \<Rightarrow> Duration \<Rightarrow> bool \<Rightarrow> storage
     \<Rightarrow> (error option \<times> topic \<times> storage) outcome" where
  "createLine c t name recycle fromEtcd s =
     (case map_of (t_lines t) name of
        Some _ \<Rightarrow> Returns (Some ErrLineExisted, t, s)
      | None \<Rightarrow>
          (case newLine c t name recycle s of
             (Inl err, s1) \<Rightarrow> Returns (Some err, t, s1)
           | (Inr l, s1) \<Rightarrow>
               (let t1 = t\<lparr>t_lines := AList.update name l (t_lines t)\<rparr> in
                case exportTopic c t1 s1 of
                  (Some err, s2) \<Rightarrow> Deadlocks
                | (None, s2) \<Rightarrow> Returns (None, t1, s2))))"

text \<open>The loop of \<^verbatim>\<open>topic.empty\<close> over the lines: it stops at the first error.\<close>
fun empty_lines :: "(string \<times> line) list \<Rightarrow> error option \<times> (string \<times> line) list" where
  "empty_lines [] = (None, [])"
| "empty_lines ((n, l) # ls) =
     (case line_empty l of
        (Some err, l1) \<Rightarrow> (Some err, (n, l1) # ls)
      | (None, l1) \<Rightarrow> (case empty_lines ls of (r, ls1) \<Rightarrow> (r, (n, l1) # ls1)))"

definition topic_empty :: "topic \<Rightarrow> storage \<Rightarrow> error option \<times> topic \<times> storage" where
  "topic_empty t s =
     (case empty_lines (t_lines t) of
        (Some err, ls) \<Rightarrow> (Some err, t\<lparr>t_lines := ls\<rparr>, s)
      | (None, ls) \<Rightarrow>
          (let t1 = t\<lparr>t_lines := ls, t_head := t_tail t\<rparr> in
           case exportHead t1 s of
             (Some err, s1) \<Rightarrow> (Some err, t1, s1)
           | (None, s1) \<Rightarrow> (None, t1, s1)))"

text \<open>\<^verbatim>\<open>topic.pop\<close>, \<^verbatim>\<open>topic.mPop\<close>, \<^verbatim>\<open>topic.confirm\<close>: look the line up and hand over.\<close>
definition pop ::
  "topic \<Rightarrow> string \<Rightarrow> int \<Rightarrow> storage \<Rightarrow> (error + uint64 \<times> bytes) \<times> topic \<times> storage" where
  "pop t name now s =
     (case map_of (t_lines t) name of
        None \<Rightarrow> (Inl ErrLineNotExisted, t, s)
      | Some l \<Rightarrow>
          (case line_pop t l now s of
             (r, l1, s1) \<Rightarrow> (r, t\<lparr>t_lines := AList.update name l1 (t_lines t)\<rparr>, s1)))"

definition mPop ::
  "topic \<Rightarrow> string \<Rightarrow> int \<Rightarrow> int \<Rightarrow> storage
     \<Rightarrow> (error + (uint64 \<times> bytes) list) \<times> topic \<times> storage" where
  "mPop t name n now s =
     (case map_of (t_lines t) name of
        None \<Rightarrow> (Inl ErrLineNotExisted, t, s)
      | Some l \<Rightarrow>
          (case line_mPop t l (nat n) now s of
             (ms, l1, s1) \<Rightarrow> (Inr ms, t\<lparr>t_lines := AList.update name l1 (t_lines t)\<rparr>, s1)))"

definition confirm :: "topic \<Rightarrow> string \<Rightarrow> uint64 \<Rightarrow> error option \<times> topic" where
  "confirm t name id' =
     (case map_of (t_lines t) name of
        None \<Rightarrow> (Some ErrLineNotExisted, t)
      | Some l \<Rightarrow>
          (case line_confirm l id' of
             (r, l1) \<Rightarrow> (r, t\<lparr>t_lines := AList.update name l1 (t_lines t)\<rparr>)))"

subsection \<open>The broker\<close>

record UnitedQueue =
  topics :: "(string \<times> topic) list"
  storage :: storage

text \<open>The fields of \<^verbatim>\<open>QueueRequest\<close> that \<^verbatim>\<open>Create\<close> reads.\<close>
record QueueRequest =
  TopicName :: string
  LineName :: string
  Recycle :: Duration

text \<open>\<^verbatim>\<open>strings.Split(s, sep)\<close> for a separator of one byte: the pieces between separators.\<close>
fun Split :: "string \<Rightarrow> char \<Rightarrow> string list" where
  "Split [] sep = [[]]"
| "Split (c # cs) sep =
     (if c = sep then [] # Split cs sep
      else case Split cs sep of
             [] \<Rightarrow> [[c]]
           | p # ps \<Rightarrow> (c # p) # ps)"

definition is_digit :: "char \<Rightarrow> bool" where
  "is_digit c = (c \<in> set ''0123456789'')"

definition digit_val :: "char \<Rightarrow> nat" where
  "digit_val c = of_char c - 48"

text \<open>
  \<^verbatim>\<open>strconv.ParseUint(s, 10, 0)\<close> on a 64-bit platform: the empty string, a byte that is
  not a decimal digit (a sign too) and a value beyond 64 bits are errors.
\<close>
definition ParseUint :: "string \<Rightarrow> uint64 option" where
  "ParseUint s =
     (if s = [] then None
      else if \<not> list_all is_digit s then None
      else (let v = foldl (\<lambda>a c. 10 * a + digit_val c) 0 s in
            if v < 2 ^ 64 then Some (word_of_nat v) else None))"

text \<open>
  \<^verbatim>\<open>loadLine\<close>: the recycle duration is read and parsed, \<^verbatim>\<open>imap\<close> is false on
  \<^verbatim>\<open>[ihead, head)\<close> and true at every in-flight id.
\<close>
definition loadLine ::
  "codec \<Rightarrow> topic \<Rightarrow> string \<Rightarrow> lineStore \<Rightarrow> storage \<Rightarrow> (error + line) \<times> storage" where
  "loadLine c t lineName lineStoreValue s =
     (let recycleKey = t_name t @ ''/'' @ lineName @ KeyLineRecycle in
      case getData s recycleKey of
        (Inl _, s1) \<Rightarrow> (Inl ErrInternalError, s1)
      | (Inr lineRecycleData, s1) \<Rightarrow>
          (case ParseDuration c lineRecycleData of
             None \<Rightarrow> (Inl ErrInternalError, s1)
           | Some lineRecycle \<Rightarrow>
               (Inr \<lparr>l_name = lineName, l_head = Head lineStoreValue,
                     l_recycle = lineRecycle, l_recycleKey = recycleKey,
                     l_inflight = Inflights lineStoreValue,
                     l_ihead = Ihead lineStoreValue,
                     l_imap = fold (\<lambda>msg imap. imap(Tid msg \<mapsto> True))
                                (Inflights lineStoreValue)
                                (\<lambda>i. if Ihead lineStoreValue \<le> i \<and> i < Head lineStoreValue
                                      then Some False else None)\<rparr>, s1)))"

text \<open>The loop of \<^verbatim>\<open>loadTopic\<close> over the listed lines: a line that fails to load is skipped.\<close>
fun loadLines ::
  "codec \<Rightarrow> topic \<Rightarrow> string list \<Rightarrow> (string \<times> line) list \<Rightarrow> storage
     \<Rightarrow> (string \<times> line) list \<times> storage" where
  "loadLines c t [] lines s = (lines, s)"
| "loadLines c t (lineName # rest) lines s =
     (case Get s (t_name t @ ''/'' @ lineName) of
        (Inl _, s1) \<Rightarrow> loadLines c t rest lines s1
      | (Inr lineStoreData, s1) \<Rightarrow>
          if length lineStoreData = 0 then loadLines c t rest lines s1
          else (case decLine c lineStoreData of
                  None \<Rightarrow> loadLines c t rest lines s1
                | Some lineStoreValue \<Rightarrow>
                    (case loadLine c t lineName lineStoreValue s1 of
                       (Inl _, s2) \<Rightarrow> loadLines c t rest lines s2
                     | (Inr l, s2) \<Rightarrow>
                         loadLines c t rest (AList.update lineName l lines) s2)))"

text \<open>
  \<^verbatim>\<open>loadTopic\<close>. A missing anchor is an error; an anchor of fewer than 8 bytes makes
  \<^verbatim>\<open>binary.LittleEndian.Uint64\<close> panic. The coordinator and the background worker
  (\<^verbatim>\<open>registerTopic\<close>, \<^verbatim>\<open>start\<close>) do not touch the state modelled here.
\<close>
definition loadTopic ::
  "codec \<Rightarrow> string \<Rightarrow> string list \<Rightarrow> storage \<Rightarrow> ((error + topic) \<times> storage) outcome" where
  "loadTopic c topicName lineNames s =
     (case Get s (topicName @ KeyTopicHead) of
        (Inl err, s1) \<Rightarrow> Returns (Inl err, s1)
      | (Inr topicHeadData, s1) \<Rightarrow>
          (case Uint64 topicHeadData of
             None \<Rightarrow> Panics
           | Some h \<Rightarrow>
               (case Get s1 (topicName @ KeyTopicTail) of
                  (Inl err, s2) \<Rightarrow> Returns (Inl err, s2)
                | (Inr topicTailData, s2) \<Rightarrow>
                    (case Uint64 topicTailData of
                       None \<Rightarrow> Panics
                     | Some tl' \<Rightarrow>
                         (let t = \<lparr>t_name = topicName, t_lines = [], t_head = h,
                                   t_headKey = topicName @ KeyTopicHead, t_tail = tl',
                                   t_tailKey = topicName @ KeyTopicTail\<rparr> in
                          case loadLines c t lineNames [] s2 of
                            (lines, s3) \<Rightarrow> Returns (Inr (t\<lparr>t_lines := lines\<rparr>), s3))))))"

text \<open>The loop of \<^verbatim>\<open>loadQueue\<close> over the listed topics.\<close>
fun loadTopics :: "codec \<Rightarrow> string list \<Rightarrow> UnitedQueue \<Rightarrow> UnitedQueue outcome" where
  "loadTopics c [] u = Returns u"
| "loadTopics c (topicName # rest) u =
     (case Get (storage u) topicName of
        (Inl _, s1) \<Rightarrow> loadTopics c rest (u\<lparr>storage := s1\<rparr>)
      | (Inr topicStoreData, s1) \<Rightarrow>
          if length topicStoreData = 0 then loadTopics c rest (u\<lparr>storage := s1\<rparr>)
          else (case decTopic c topicStoreData of
                  None \<Rightarrow> loadTopics c rest (u\<lparr>storage := s1\<rparr>)
                | Some lineNames \<Rightarrow>
                    (case loadTopic c topicName lineNames s1 of
                       Panics \<Rightarrow> Panics
                     | Deadlocks \<Rightarrow> Deadlocks
                     | Returns (Inl _, s2) \<Rightarrow> loadTopics c rest (u\<lparr>storage := s2\<rparr>)
                     | Returns (Inr t, s2) \<Rightarrow>
                         loadTopics c rest
                           (u\<lparr>topics := AList.update topicName t (topics u),
                              storage := s2\<rparr>))))"

definition loadQueue :: "codec \<Rightarrow> UnitedQueue \<Rightarrow> (error option \<times> UnitedQueue) outcome" where
  "loadQueue c u =
     (case Get (storage u) StorageKeyWord of
        (Inl _, s1) \<Rightarrow> Returns (None, u\<lparr>storage := s1\<rparr>)
      | (Inr unitedQueueStoreData, s1) \<Rightarrow>
          if length unitedQueueStoreData > 0 then
            (case decQueue c unitedQueueStoreData of
               None \<Rightarrow> Returns (None, u\<lparr>storage := s1\<rparr>)
             | Some names \<Rightarrow>
                 (case loadTopics c names (u\<lparr>storage := s1\<rparr>) of
                    Returns u1 \<Rightarrow> Returns (None, u1)
                  | Panics \<Rightarrow> Panics
                  | Deadlocks \<Rightarrow> Deadlocks))
          else Returns (None, u\<lparr>storage := s1\<rparr>))"

text \<open>\<^verbatim>\<open>NewUnitedQueue\<close>: an empty registry over the store, then recovery.\<close>
definition NewUnitedQueue :: "codec \<Rightarrow> storage \<Rightarrow> (error + UnitedQueue) outcome" where
  "NewUnitedQueue c st =
     (case loadQueue c \<lparr>topics = [], storage = st\<rparr> of
        Returns (Some err, _) \<Rightarrow> Returns (Inl err)
      | Returns (None, u) \<Rightarrow> Returns (Inr u)
      | Panics \<Rightarrow> Panics
      | Deadlocks \<Rightarrow> Deadlocks)"

definition newTopic :: "string \<Rightarrow> storage \<Rightarrow> (error + topic) \<times> storage" where
  "newTopic name s =
     (let t = \<lparr>t_name = name, t_lines = [], t_head = 0, t_headKey = name @ KeyTopicHead,
               t_tail = 0, t_tailKey = name @ KeyTopicTail\<rparr> in
      case exportHead t s of
        (Some err, s1) \<Rightarrow> (Inl err, s1)
      | (None, s1) \<Rightarrow>
          (case exportTail t s1 of
             (Some err, s2) \<Rightarrow> (Inl err, s2)
           | (None, s2) \<Rightarrow> (Inr t, s2)))"

definition genQueueStore :: "UnitedQueue \<Rightarrow> string list" where
  "genQueueStore u = map fst (topics u)"

definition exportQueue :: "codec \<Rightarrow> UnitedQueue \<Rightarrow> error option \<times> storage" where
  "exportQueue c u =
     (case encQueue c (genQueueStore u) of
        None \<Rightarrow> (Some ErrInternalError, storage u)
      | Some b \<Rightarrow>
          (case Set (storage u) StorageKeyWord b of
             (Some _, s') \<Rightarrow> (Some ErrInternalError, s')
           | (None, s') \<Rightarrow> (None, s')))"

definition createTopic :: "codec \<Rightarrow> UnitedQueue \<Rightarrow> string \<Rightarrow> bool \<Rightarrow> error option \<times> UnitedQueue" where
  "createTopic c u name fromEtcd =
     (case map_of (topics u) name of
        Some _ \<Rightarrow> (Some ErrTopicExisted, u)
      | None \<Rightarrow>
          (case newTopic name (storage u) of
             (Inl err, s1) \<Rightarrow> (Some err, u\<lparr>storage := s1\<rparr>)
           | (Inr t, s1) \<Rightarrow>
               (let u1 = u\<lparr>topics := AList.update name t (topics u), storage := s1\<rparr> in
                case exportQueue c u1 of
                  (Some err, s2) \<Rightarrow>
                    (Some err, u1\<lparr>topics := AList.delete name (topics u1), storage := s2\<rparr>)
                | (None, s2) \<Rightarrow> (None, u1\<lparr>storage := s2\<rparr>))))"

definition Create :: "codec \<Rightarrow> UnitedQueue \<Rightarrow> QueueRequest \<Rightarrow> (error option \<times> UnitedQueue) outcome" where
  "Create c u qr =
     (if TopicName qr = [] then Returns (Some ErrBadKey, u)
      else if LineName qr \<noteq> [] then
        (case map_of (topics u) (TopicName qr) of
           None \<Rightarrow> Returns (Some ErrTopicNotExisted, u)
         | Some t \<Rightarrow>
             (case createLine c t (LineName qr) (Recycle qr) False (storage u) of
                Returns (err, t1, s1) \<Rightarrow>
                  Returns (err, u\<lparr>topics := AList.update (TopicName qr) t1 (topics u),
                                  storage := s1\<rparr>)
              | Panics \<Rightarrow> Panics
              | Deadlocks \<Rightarrow> Deadlocks))
      else Returns (createTopic c u (TopicName qr) False))"

definition Pop ::
  "UnitedQueue \<Rightarrow> string \<Rightarrow> int \<Rightarrow> (error + uint64 \<times> bytes) \<times> UnitedQueue" where
  "Pop u name now =
     (let parts = Split name CHR ''/'' in
      if length parts \<noteq> 2 then (Inl ErrBadKey, u)
      else case map_of (topics u) (parts ! 0) of
             None \<Rightarrow> (Inl ErrTopicNotExisted, u)
           | Some t \<Rightarrow>
               (case pop t (parts ! 1) now (storage u) of
                  (r, t1, s1) \<Rightarrow>
                    (r, u\<lparr>topics := AList.update (parts ! 0) t1 (topics u), storage := s1\<rparr>)))"

definition MultiPop ::
  "UnitedQueue \<Rightarrow> string \<Rightarrow> int \<Rightarrow> int \<Rightarrow> (error + (uint64 \<times> bytes) list) \<times> UnitedQueue" where
  "MultiPop u name n now =
     (let parts = Split name CHR ''/'' in
      if length parts \<noteq> 2 then (Inl ErrBadKey, u)
      else case map_of (topics u) (parts ! 0) of
             None \<Rightarrow> (Inl ErrTopicNotExisted, u)
           | Some t \<Rightarrow>
               (case mPop t (parts ! 1) n now (storage u) of
                  (r, t1, s1) \<Rightarrow>
                    (r, u\<lparr>topics := AList.update (parts ! 0) t1 (topics u), storage := s1\<rparr>)))"

definition Confirm :: "UnitedQueue \<Rightarrow> string \<Rightarrow> error option \<times> UnitedQueue" where
  "Confirm u key =
     (let parts = Split key CHR ''/'' in
      if length parts \<noteq> 3 then (Some ErrBadKey, u)
      else case ParseUint (parts ! 2) of
             None \<Rightarrow> (Some ErrBadKey, u)
           | Some id' \<Rightarrow>
               (case map_of (topics u) (parts ! 0) of
                  None \<Rightarrow> (Some ErrTopicNotExisted, u)
                | Some t \<Rightarrow>
                    (case confirm t (parts ! 1) id' of
                       (r, t1) \<Rightarrow>
                         (r, u\<lparr>topics := AList.update (parts ! 0) t1 (topics u)\<rparr>))))"

subsection \<open>Example states\<close>

text \<open>A store without entries or faults, and the topic \<^verbatim>\<open>T\<close> as \<^verbatim>\<open>newTopic\<close> builds it.\<close>
definition example_store :: storage where
  "example_store = \<lparr>kv = Map.empty, faults = []\<rparr>"

definition example_topic :: topic where
  "example_topic = \<lparr>t_name = ''T'', t_lines = [], t_head = 0, t_headKey = ''T:head'',
     t_tail = 0, t_tailKey = ''T:tail''\<rparr>"

text \<open>
  The topic \<^verbatim>\<open>T\<close> with three messages and two lines: \<^verbatim>\<open>L1\<close> acknowledges on delivery
  and has read two messages, \<^verbatim>\<open>L2\<close> has a recycle time, has confirmed message 0 and holds
  messages 1 and 2 in flight.
\<close>
definition example_lines :: "(string \<times> line) list" where
  "example_lines =
     [(''L1'', \<lparr>l_name = ''L1'', l_head = 2, l_recycle = 0, l_recycleKey = ''T/L1:recycle'',
               l_inflight = [], l_ihead = 2, l_imap = Map.empty\<rparr>),
      (''L2'', \<lparr>l_name = ''L2'', l_head = 3, l_recycle = 10, l_recycleKey = ''T/L2:recycle'',
               l_inflight = [\<lparr>Tid = 1, Exptime = 50\<rparr>, \<lparr>Tid = 2, Exptime = 60\<rparr>], l_ihead = 1,
               l_imap = [1 \<mapsto> True, 2 \<mapsto> True]\<rparr>)]"

definition example_log :: storage where
  "example_log = \<lparr>kv = [''T:0'' \<mapsto> [97], ''T:1'' \<mapsto> [98], ''T:2'' \<mapsto> [99]], faults = []\<rparr>"

definition example_busy_topic :: topic where
  "example_busy_topic = example_topic\<lparr>t_lines := example_lines, t_tail := 3\<rparr>"

text \<open>The same topic with the line \<^verbatim>\<open>L1\<close> alone: two messages can be reclaimed.\<close>
definition example_read_topic :: topic where
  "example_read_topic = example_topic\<lparr>t_lines := [hd example_lines], t_tail := 3\<rparr>"

text \<open>
  The topic \<^verbatim>\<open>T\<close> after \<^verbatim>\<open>newTopic\<close> and a batch of one payload and an empty one: the tail
  is 1 and the tail anchor in the store still holds 0.
\<close>
definition example_stale_topic :: topic where
  "example_stale_topic = example_topic\<lparr>t_tail := 1\<rparr>"

definition example_stale_store :: storage where
  "example_stale_store =
     \<lparr>kv = [''T:head'' \<mapsto> PutUint64 0, ''T:tail'' \<mapsto> PutUint64 0, ''T:0'' \<mapsto> [97]],
      faults = []\<rparr>"

text \<open>A codec for the examples, and a broker without topics over the empty store.\<close>
definition example_codec :: codec where
  "example_codec =
     \<lparr>encQueue = (\<lambda>names. Some [1]), decQueue = (\<lambda>b. Some [''T'']),
      encTopic = (\<lambda>names. Some [2]), decTopic = (\<lambda>b. Some []),
      encLine = (\<lambda>ls. Some [3]), decLine = (\<lambda>b. None),
      fmtDuration = (\<lambda>d. [48, 115]), ParseDuration = (\<lambda>b. Some 0)\<rparr>"

definition example_queue :: UnitedQueue where
  "example_queue = \<lparr>topics = [], storage = example_store\<rparr>"

text \<open>
  A store that lists the topic \<^verbatim>\<open>T\<close>, holds its catalog, and holds one byte at its head
  anchor.
\<close>
definition example_short_anchor :: storage where
  "example_short_anchor =
     \<lparr>kv = [''UnitedQueueKey'' \<mapsto> [1], ''T'' \<mapsto> [2], ''T:head'' \<mapsto> [0]], faults = []\<rparr>"

section \<open>Keys\<close>

text \<open>Decimal digits decode to the number they were made from, so message keys of one
  topic are distinct for distinct ids, and none of them is the head anchor's key.\<close>
lemma digit_val_digit_char: "n < 10 \<Longrightarrow> digit_val (digit_char n) = n"
proof -
  assume "n < 10"
  then have "n \<in> {0, 1, 2, 3, 4, 5, 6, 7, 8, 9}" by auto
  then show ?thesis
    by (auto simp: digit_val_def digit_char_def)
qed

lemma is_digit_digit_char: "n < 10 \<Longrightarrow> is_digit (digit_char n)"
proof -
  assume "n < 10"
  then have "n \<in> {0, 1, 2, 3, 4, 5, 6, 7, 8, 9}" by auto
  then show ?thesis
    by (auto simp: is_digit_def digit_char_def)
qed

lemma FormatUint_not_Nil: "FormatUint n \<noteq> []"
  by (subst FormatUint.simps) simp

lemma last_FormatUint: "last (FormatUint n) = digit_char (n mod 10)"
  by (subst FormatUint.simps) simp

lemma FormatUint_digits: "list_all is_digit (FormatUint n)"
proof (induction n rule: FormatUint.induct)
  case (1 n)
  show ?case
  proof (cases "n < 10")
    case True
    then show ?thesis
      by (subst FormatUint.simps) (simp add: is_digit_digit_char)
  next
    case False
    with 1 show ?thesis
      by (subst FormatUint.simps) (simp add: is_digit_digit_char)
  qed
qed

lemma decode_FormatUint: "foldl (\<lambda>a c. 10 * a + digit_val c) 0 (FormatUint n) = n"
proof (induction n rule: FormatUint.induct)
  case (1 n)
  show ?case
  proof (cases "n < 10")
    case True
    then show ?thesis
      by (subst FormatUint.simps) (simp add: digit_val_digit_char)
  next
    case False
    with 1 show ?thesis
      by (subst FormatUint.simps) (simp add: digit_val_digit_char)
  qed
qed

lemma FormatUint_inj: "FormatUint n = FormatUint m \<Longrightarrow> n = m"
  by (metis decode_FormatUint)

lemma Acatui_inj: "Acatui str b i = Acatui str b j \<Longrightarrow> i = j"
proof -
  assume "Acatui str b i = Acatui str b j"
  then have "unat i = unat j"
    by (auto simp: Acatui_def dest: FormatUint_inj)
  then show "i = j"
    by (rule word_unat_eq_iff [THEN iffD2])
qed

lemma ParseUint_FormatUint: "ParseUint (FormatUint (unat w)) = Some w"
proof -
  have "unat w < 2 ^ 64"
    using unsigned_less [of w] by simp
  then show ?thesis
    by (simp add: ParseUint_def FormatUint_not_Nil FormatUint_digits decode_FormatUint Let_def)
qed

lemma Acatui_not_headKey: "Acatui name '':'' i \<noteq> name @ KeyTopicHead"
proof
  assume "Acatui name '':'' i = name @ KeyTopicHead"
  then have "FormatUint (unat i) = ''head''"
    by (simp add: Acatui_def KeyTopicHead_def)
  then have "last (FormatUint (unat i)) = CHR ''d''" by simp
  then have "digit_char (unat i mod 10) = CHR ''d''" by (simp add: last_FormatUint)
  moreover have "is_digit (digit_char (unat i mod 10))" by (simp add: is_digit_digit_char)
  ultimately show False by (simp add: is_digit_def)
qed

section \<open>The push path\<close>

text \<open>
  C4: \<^verbatim>\<open>push\<close> persists the payload at \<^verbatim>\<open>"{topic}:{tail}"\<close>, then increments the tail,
  then persists the new tail anchor. When the payload write fails nothing changes; when
  the anchor write fails the tail is back at its prior value and the payload key stays in
  the store; otherwise \<^verbatim>\<open>push\<close> returns no error (and no id: its only result is the
  error), the tail is one higher and the anchor holds the new tail.
\<close>
theorem push_persists_then_advances:
  "push t s data =
     (if fault_now s then (Some ErrInternalError, t, tick s)
      else if fault_now (tick s) then
        (Some ErrInternalError, t,
         (tick (tick s))\<lparr>kv := (kv s)(Acatui (t_name t) '':'' (t_tail t) \<mapsto> data)\<rparr>)
      else
        (None, t\<lparr>t_tail := t_tail t + 1\<rparr>,
         (tick (tick s))\<lparr>kv := (kv s)(Acatui (t_name t) '':'' (t_tail t) \<mapsto> data,
                                      t_tailKey t \<mapsto> PutUint64 (t_tail t + 1))\<rparr>))"
  by (simp add: push_def exportTail_def setData_def Set_def Let_def tick_def fault_now_def)

theorem push_persists_then_advances_witness:
  "push example_topic (example_store\<lparr>faults := [False, True]\<rparr>) [97] =
     (Some ErrInternalError, example_topic, \<lparr>kv = [''T:0'' \<mapsto> [97]], faults = []\<rparr>)"
  using push_persists_then_advances [of example_topic "example_store\<lparr>faults := [False, True]\<rparr>" "[97]"]
  by (simp add: example_store_def example_topic_def fault_now_def
      tick_def Acatui_def FormatUint.simps digit_char_def)

text \<open>
  The loop of \<^verbatim>\<open>mPush\<close> on a batch with an empty payload: the payloads before the first
  empty one are written, and the first of these writes that fails ends the loop with
  \<open>ErrInternalError\<close>; when none fails the empty payload ends it with \<open>ErrBadRequest\<close>.
\<close>
lemma mPush_loop_error:
  "[] \<in> set datas \<Longrightarrow>
   fst (mPush_loop old t s datas) =
     Some (if True \<in> set (take (length (takeWhile (\<lambda>d. d \<noteq> []) datas)) (faults s))
           then ErrInternalError else ErrBadRequest)"
proof (induction datas arbitrary: t s)
  case Nil
  then show ?case by simp
next
  case (Cons d ds)
  show ?case
  proof (cases "d = []")
    case True
    then show ?thesis by simp
  next
    case False
    with Cons.prems have mem: "[] \<in> set ds" by auto
    show ?thesis
    proof (cases "faults s")
      case Nil
      with False Cons.IH [OF mem] show ?thesis
        by (simp add: setData_def Set_def fault_now_def tick_def)
    next
      case (Cons f fs)
      with False Cons.IH [OF mem] show ?thesis
        by (cases f) (simp_all add: setData_def Set_def fault_now_def tick_def)
    qed
  qed
qed

text \<open>
  C5, as amended: a batch with an empty payload makes \<^verbatim>\<open>mPush\<close> fail. The error is
  \<open>ErrBadRequest\<close> when the writes of the payloads before the first empty one succeed, and
  \<open>ErrInternalError\<close> when one of them fails, since each payload is checked only when its
  turn to be written comes.
\<close>
theorem mPush_empty_payload_fails:
  assumes "[] \<in> set datas"
  shows "fst (mPush t s datas) =
     Some (if True \<in> set (take (length (takeWhile (\<lambda>d. d \<noteq> []) datas)) (faults s))
           then ErrInternalError else ErrBadRequest)"
proof -
  obtain r t1 s1 where loop: "mPush_loop (t_tail t) t s datas = (r, t1, s1)"
    by (cases "mPush_loop (t_tail t) t s datas") auto
  from mPush_loop_error [OF assms, of "t_tail t" t s] loop
  have "r = Some (if True \<in> set (take (length (takeWhile (\<lambda>d. d \<noteq> []) datas)) (faults s))
           then ErrInternalError else ErrBadRequest)"
    by simp
  with loop show ?thesis
    by (simp add: mPush_def)
qed

theorem mPush_empty_payload_fails_witness:
  "[] \<in> set [[97], [] :: bytes] \<and>
   fst (mPush example_topic example_store [[97], []]) = Some ErrBadRequest"
  using mPush_empty_payload_fails [of "[[97], []]" example_topic example_store]
  by (simp add: example_store_def)

text \<open>
  The claim C5 as it is written fails when the write of an earlier payload fails: the
  batch has an empty payload and the error is not \<open>ErrBadRequest\<close>.
\<close>
theorem mPush_earlier_write_error_wins:
  "[] \<in> set [[97], [] :: bytes] \<and>
   fst (mPush example_topic (example_store\<lparr>faults := [True]\<rparr>) [[97], []]) \<noteq> Some ErrBadRequest"
  by (simp add: mPush_def example_store_def example_topic_def setData_def Set_def
      fault_now_def tick_def)

text \<open>
  C1: a failing \<^verbatim>\<open>mPush\<close> should leave the tail at its value before the batch. On the
  batch of one payload and an empty one, over a store without faults, the code returns
  \<open>ErrBadRequest\<close> with the tail advanced from 0 to 1 by the payload already written,
  and the anchor in the store is not written.
\<close>
theorem mPush_BadRequest_keeps_advanced_tail:
  "mPush example_topic example_store [[97], []] =
     (Some ErrBadRequest, example_topic\<lparr>t_tail := 1\<rparr>,
      \<lparr>kv = [''T:0'' \<mapsto> [97]], faults = []\<rparr>)"
  by (simp add: mPush_def example_store_def example_topic_def setData_def Set_def fault_now_def
      tick_def Acatui_def FormatUint.simps digit_char_def)

text \<open>The paths of \<^verbatim>\<open>mPush\<close> that do restore the tail: every failure of a write.\<close>
lemma mPush_loop_internal:
  "fst (mPush_loop old t s datas) = Some ErrInternalError \<Longrightarrow>
   t_tail (fst (snd (mPush_loop old t s datas))) = old"
  by (induction datas arbitrary: t s)
     (auto simp: setData_def Set_def split: if_splits prod.splits option.splits)

lemma mPush_KV_error_restores_tail:
  assumes "fst (mPush t s datas) = Some ErrInternalError"
  shows "t_tail (fst (snd (mPush t s datas))) = t_tail t"
proof -
  obtain r t1 s1 where loop: "mPush_loop (t_tail t) t s datas = (r, t1, s1)"
    by (cases "mPush_loop (t_tail t) t s datas") auto
  show ?thesis
  proof (cases r)
    case None
    with loop assms show ?thesis
      by (simp add: mPush_def exportTail_def setData_def Set_def split: if_splits)
  next
    case (Some e)
    with loop assms have "e = ErrInternalError"
      by (simp add: mPush_def)
    with Some loop mPush_loop_internal [of "t_tail t" t s datas] show ?thesis
      by (simp add: mPush_def)
  qed
qed

section \<open>Reclamation\<close>

lemma getEnd_loop_fold:
  "getEnd_loop e ls =
     fold min (map (\<lambda>(n, l). if l_recycle l > 0 then l_ihead l else l_head l) ls) e"
  by (induction ls arbitrary: e) (auto simp: min_def)

lemma getEnd_loop_Min:
  "getEnd_loop e ls =
     Min (insert e ((\<lambda>(n, l). if l_recycle l > 0 then l_ihead l else l_head l) ` set ls))"
proof -
  have "Min (set (e # map (\<lambda>(n, l). if l_recycle l > 0 then l_ihead l else l_head l) ls)) =
    fold min (map (\<lambda>(n, l). if l_recycle l > 0 then l_ihead l else l_head l) ls) e"
    by (rule Min.set_eq_fold)
  then show ?thesis
    by (simp add: getEnd_loop_fold)
qed

lemma word_le_cases:
  fixes h i :: uint64
  assumes "h \<le> i" "i \<noteq> h"
  shows "h + 1 \<le> i"
proof -
  from assms have "h < i"
    by simp
  then show ?thesis
    by (rule inc_le)
qed

lemma word_less_succ:
  fixes h e :: uint64
  assumes "h < e"
  shows "h < h + 1"
  using unat_succ_of_less [OF assms] by (simp add: word_less_nat_alt)

lemma word_lt_cases:
  fixes h i :: uint64
  assumes "h < e" "h \<le> i" "i < h + 1"
  shows "i = h"
proof -
  from assms(3) unat_succ_of_less [OF assms(1)] have "unat i < Suc (unat h)"
    by (simp add: word_less_nat_alt)
  moreover from assms(2) have "unat h \<le> unat i"
    by (simp add: word_le_nat_alt)
  ultimately have "unat i = unat h"
    by simp
  then show ?thesis
    by (rule word_unat_eq_iff [THEN iffD2])
qed

text \<open>
  The invariant of the loop of \<^verbatim>\<open>clean\<close>: the head only moves up and not beyond the
  bound, every id it has passed has no key left, and no other key but the head anchor's
  has changed.
\<close>
lemma clean_loop_inv:
  assumes "t_headKey t = t_name t @ KeyTopicHead"
    and "clean_loop ending env t s = (q, t', s')"
  shows "t_name t' = t_name t \<and> t_headKey t' = t_headKey t \<and> t_tail t' = t_tail t
     \<and> t_lines t' = t_lines t \<and> t_tailKey t' = t_tailKey t
     \<and> t_head t \<le> t_head t' \<and> (t_head t' \<le> ending \<or> t_head t' = t_head t)
     \<and> (\<forall>i. t_head t \<le> i \<longrightarrow> i < t_head t' \<longrightarrow> kv s' (Acatui (t_name t) '':'' i) = None)
     \<and> (\<forall>k. k \<noteq> t_headKey t \<longrightarrow>
            (\<forall>i. t_head t \<le> i \<longrightarrow> i < t_head t' \<longrightarrow> k \<noteq> Acatui (t_name t) '':'' i) \<longrightarrow>
            kv s' k = kv s k)"
  using assms
proof (induction ending env t s arbitrary: q t' s' rule: clean_loop.induct)
  case (1 ending env t s)
  let ?key = "Acatui (t_name t) '':'' (t_head t)"
  let ?t1 = "t\<lparr>t_head := t_head t + 1\<rparr>"
  let ?s1 = "(tick s)\<lparr>kv := (kv s)(?key := None)\<rparr>"
  let ?s2 = "(tick ?s1)\<lparr>kv := (kv ?s1)(t_headKey t \<mapsto> PutUint64 (t_head t + 1))\<rparr>"
  note run = "1.prems"(2)
  note wf = "1.prems"(1)
  have key_ne: "?key \<noteq> t_headKey t"
    using wf by (simp add: Acatui_not_headKey)
  show ?case
  proof (cases "t_head t < ending \<and> \<not> quit_now env \<and> \<not> deadline_now env")
    case False
    with run have "t' = t" "s' = s"
      by (auto simp: clean_loop.simps [of ending env t s] split: if_splits)
    then show ?thesis by auto
  next
    case go: True
    then have lt: "t_head t < ending" by simp
    have lt1: "t_head t < t_head t + 1"
      using lt by (rule word_less_succ)
    then have le1: "t_head t \<le> t_head t + 1"
      by simp
    have le2: "t_head t + 1 \<le> ending"
      using lt by (rule inc_le)
    show ?thesis
    proof (cases "fault_now s")
      case True
      with go run have "t' = t" "kv s' = kv s"
        by (auto simp: clean_loop.simps [of ending env t s] delData_def Del_def tick_def)
      then show ?thesis by auto
    next
      case del_ok: False
      then have del: "delData s ?key = (None, ?s1)"
        by (simp add: delData_def Del_def)
      show ?thesis
      proof (cases "fault_now ?s1")
        case True
        then have "exportHead ?t1 ?s1 = (Some ErrInternalError, tick ?s1)"
          by (simp add: exportHead_def setData_def Set_def)
        with go run del have "t' = ?t1" "kv s' = kv ?s1"
          by (auto simp: clean_loop.simps [of ending env t s] Let_def tick_def)
        with le1 le2 lt show ?thesis
          by (auto dest: word_lt_cases)
      next
        case False
        then have ex: "exportHead ?t1 ?s1 = (None, ?s2)"
          by (simp add: exportHead_def setData_def Set_def)
        with go run del have rec: "clean_loop ending (tl env) ?t1 ?s2 = (q, t', s')"
          by (simp add: clean_loop.simps [of ending env t s] Let_def)
        have wf1: "t_headKey ?t1 = t_name ?t1 @ KeyTopicHead"
          using wf by simp
        have IH: "t_name t' = t_name ?t1 \<and> t_headKey t' = t_headKey ?t1 \<and> t_tail t' = t_tail ?t1
     \<and> t_lines t' = t_lines ?t1 \<and> t_tailKey t' = t_tailKey ?t1
     \<and> t_head ?t1 \<le> t_head t' \<and> (t_head t' \<le> ending \<or> t_head t' = t_head ?t1)
     \<and> (\<forall>i. t_head ?t1 \<le> i \<longrightarrow> i < t_head t' \<longrightarrow> kv s' (Acatui (t_name ?t1) '':'' i) = None)
     \<and> (\<forall>k. k \<noteq> t_headKey ?t1 \<longrightarrow>
            (\<forall>i. t_head ?t1 \<le> i \<longrightarrow> i < t_head t' \<longrightarrow> k \<noteq> Acatui (t_name ?t1) '':'' i) \<longrightarrow>
            kv s' k = kv ?s2 k)"
          using go del ex wf1 rec
          by (intro "1.IH" [of None ?s1 ?t1 None ?s2]) simp_all
        from IH have up: "t_head t + 1 \<le> t_head t'"
          by simp
        have s2_key: "kv ?s2 ?key = None"
          using key_ne by simp
        have s2_frame: "kv ?s2 k = kv s k" if "k \<noteq> t_headKey t" "k \<noteq> ?key" for k
          using that by simp
        have gone: "kv s' (Acatui (t_name t) '':'' i) = None"
          if "t_head t \<le> i" "i < t_head t'" for i
        proof (cases "i = t_head t")
          case False
          with that have "t_head t + 1 \<le> i"
            by (simp add: word_le_cases)
          with IH that show ?thesis
            by simp
        next
          case True
          show ?thesis
          proof (cases "\<exists>j. t_head t + 1 \<le> j \<and> j < t_head t' \<and> ?key = Acatui (t_name t) '':'' j")
            case True
            with IH \<open>i = t_head t\<close> show ?thesis
              by auto
          next
            case False
            with IH key_ne have "kv s' ?key = kv ?s2 ?key"
              by auto
            with s2_key \<open>i = t_head t\<close> show ?thesis
              by simp
          qed
        qed
        have frame: "kv s' k = kv s k"
          if "k \<noteq> t_headKey t"
            and frame_hyp: "\<forall>i. t_head t \<le> i \<longrightarrow> i < t_head t' \<longrightarrow> k \<noteq> Acatui (t_name t) '':'' i" for k
        proof -
          from lt1 up have "t_head t < t_head t'"
            by simp
          with that have "k \<noteq> ?key"
            by auto
          moreover have "k \<noteq> Acatui (t_name t) '':'' i"
            if "t_head t + 1 \<le> i" "i < t_head t'" for i
          proof -
            from le1 that(1) have "t_head t \<le> i"
              by (rule order_trans)
            with \<open>i < t_head t'\<close> frame_hyp show ?thesis
              by simp
          qed
          ultimately show ?thesis
            using IH that s2_frame [of k] by simp
        qed
        from IH le1 le2 up gone frame show ?thesis
          by (auto intro: order_trans)
      qed
    qed
  qed
qed

lemma clean_loop_stop: "\<not> t_head t < ending \<Longrightarrow> clean_loop ending env t s = (False, t, s)"
  by (simp add: clean_loop.simps [of ending env t s])

text \<open>A pass that nothing stops (no quit, no deadline, no failing write) reaches the bound.\<close>
lemma clean_loop_complete:
  assumes "True \<notin> set (faults s)" and "\<forall>e \<in> set env. e = (False, False)"
    and "clean_loop ending env t s = (q, t', s')"
  shows "\<not> q \<and> t_head t' = max (t_head t) ending
     \<and> (t_head t < ending \<longrightarrow> kv s' (t_headKey t) = Some (PutUint64 ending))"
  using assms
proof (induction ending env t s arbitrary: q t' s' rule: clean_loop.induct)
  case (1 ending env t s)
  let ?key = "Acatui (t_name t) '':'' (t_head t)"
  let ?t1 = "t\<lparr>t_head := t_head t + 1\<rparr>"
  let ?s1 = "(tick s)\<lparr>kv := (kv s)(?key := None)\<rparr>"
  let ?s2 = "(tick ?s1)\<lparr>kv := (kv ?s1)(t_headKey t \<mapsto> PutUint64 (t_head t + 1))\<rparr>"
  note nofault = "1.prems"(1) and calm = "1.prems"(2) and run = "1.prems"(3)
  have nq: "\<not> quit_now env" "\<not> deadline_now env"
    using calm by (cases env; auto simp: quit_now_def deadline_now_def)+
  have nf: "\<not> fault_now s" "\<not> fault_now ?s1"
    using nofault by (cases "faults s"; cases "tl (faults s)"; auto simp: fault_now_def tick_def)+
  show ?case
  proof (cases "t_head t < ending")
    case False
    with run have "q = False" "t' = t" "s' = s"
      by (auto simp: clean_loop.simps [of ending env t s])
    with False show ?thesis
      by (simp add: max_def)
  next
    case lt: True
    have del: "delData s ?key = (None, ?s1)"
      using nf by (simp add: delData_def Del_def)
    have ex: "exportHead ?t1 ?s1 = (None, ?s2)"
      using nf by (simp add: exportHead_def setData_def Set_def)
    from lt nq run del ex have rec: "clean_loop ending (tl env) ?t1 ?s2 = (q, t', s')"
      by (simp add: clean_loop.simps [of ending env t s] Let_def)
    have nofault2: "True \<notin> set (faults ?s2)"
      using nofault by (cases "faults s"; cases "tl (faults s)"; auto simp: tick_def)
    have calm2: "\<forall>e \<in> set (tl env). e = (False, False)"
      using calm by (cases env) auto
    have IH: "\<not> q \<and> t_head t' = max (t_head ?t1) ending
       \<and> (t_head ?t1 < ending \<longrightarrow> kv s' (t_headKey ?t1) = Some (PutUint64 ending))"
      using lt nq del ex nofault2 calm2 rec
      by (intro "1.IH" [of None ?s1 ?t1 None ?s2]) simp_all
    have le2: "t_head t + 1 \<le> ending"
      using lt by (rule inc_le)
    show ?thesis
    proof (cases "t_head t + 1 < ending")
      case True
      with IH le2 less_imp_le [OF lt] show ?thesis
        by (simp add: max_def)
    next
      case False
      with le2 have eq: "t_head t + 1 = ending"
        by simp
      with rec have "t' = ?t1" "s' = ?s2" "q = False"
        by (simp_all add: clean_loop_stop)
      with eq lt show ?thesis
        by (auto simp: max_def)
    qed
  qed
qed

text \<open>A clean pass on the example: the bound is 1, and only message 0 goes.\<close>
lemma example_clean:
  "clean [] example_busy_topic example_log =
     (False, example_busy_topic\<lparr>t_head := 1\<rparr>,
      \<lparr>kv = [''T:1'' \<mapsto> [98], ''T:2'' \<mapsto> [99], ''T:head'' \<mapsto> PutUint64 1], faults = []\<rparr>)"
  by (simp add: clean_def getEnd_def example_busy_topic_def example_topic_def example_lines_def
      example_log_def clean_loop.simps quit_now_def deadline_now_def delData_def Del_def
      exportHead_def setData_def Set_def fault_now_def tick_def Acatui_def FormatUint.simps
      digit_char_def fun_upd_twist)

text \<open>
  What a pass can delete, whatever the topic's head key is: a key that was in the store
  and is gone is the key of an id the head has passed.
\<close>
lemma clean_loop_deletes:
  assumes "clean_loop ending env t s = (q, t', s')"
  shows "t_name t' = t_name t \<and> t_headKey t' = t_headKey t \<and> t_head t \<le> t_head t'
     \<and> (t_head t' \<le> ending \<or> t_head t' = t_head t)
     \<and> (\<forall>k. kv s k \<noteq> None \<longrightarrow> kv s' k = None \<longrightarrow>
            (\<exists>i. t_head t \<le> i \<and> i < t_head t' \<and> k = Acatui (t_name t) '':'' i))"
  using assms
proof (induction ending env t s arbitrary: q t' s' rule: clean_loop.induct)
  case (1 ending env t s)
  let ?key = "Acatui (t_name t) '':'' (t_head t)"
  let ?t1 = "t\<lparr>t_head := t_head t + 1\<rparr>"
  let ?s1 = "(tick s)\<lparr>kv := (kv s)(?key := None)\<rparr>"
  let ?s2 = "(tick ?s1)\<lparr>kv := (kv ?s1)(t_headKey t \<mapsto> PutUint64 (t_head t + 1))\<rparr>"
  note run = "1.prems"
  show ?case
  proof (cases "t_head t < ending \<and> \<not> quit_now env \<and> \<not> deadline_now env")
    case False
    with run have "t' = t" "s' = s"
      by (auto simp: clean_loop.simps [of ending env t s] split: if_splits)
    then show ?thesis by auto
  next
    case go: True
    then have lt: "t_head t < ending" by simp
    have lt1: "t_head t < t_head t + 1"
      using lt by (rule word_less_succ)
    then have le1: "t_head t \<le> t_head t + 1"
      by simp
    have le2: "t_head t + 1 \<le> ending"
      using lt by (rule inc_le)
    show ?thesis
    proof (cases "fault_now s")
      case True
      with go run have "t' = t" "kv s' = kv s"
        by (auto simp: clean_loop.simps [of ending env t s] delData_def Del_def tick_def)
      then show ?thesis by auto
    next
      case del_ok: False
      then have del: "delData s ?key = (None, ?s1)"
        by (simp add: delData_def Del_def)
      show ?thesis
      proof (cases "fault_now ?s1")
        case True
        then have "exportHead ?t1 ?s1 = (Some ErrInternalError, tick ?s1)"
          by (simp add: exportHead_def setData_def Set_def)
        with go run del have "t' = ?t1" "kv s' = kv ?s1"
          by (auto simp: clean_loop.simps [of ending env t s] Let_def tick_def)
        with le1 le2 lt1 show ?thesis
          by (auto split: if_splits)
      next
        case False
        then have ex: "exportHead ?t1 ?s1 = (None, ?s2)"
          by (simp add: exportHead_def setData_def Set_def)
        with go run del have rec: "clean_loop ending (tl env) ?t1 ?s2 = (q, t', s')"
          by (simp add: clean_loop.simps [of ending env t s] Let_def)
        have IH: "t_name t' = t_name ?t1 \<and> t_headKey t' = t_headKey ?t1
          \<and> t_head ?t1 \<le> t_head t'
          \<and> (t_head t' \<le> ending \<or> t_head t' = t_head ?t1)
          \<and> (\<forall>k. kv ?s2 k \<noteq> None \<longrightarrow> kv s' k = None \<longrightarrow>
            (\<exists>i. t_head ?t1 \<le> i \<and> i < t_head t' \<and> k = Acatui (t_name ?t1) '':'' i))"
          using go del ex rec
          by (intro "1.IH" [of None ?s1 ?t1 None ?s2]) simp_all
        from IH have up: "t_head t + 1 \<le> t_head t'"
          by simp
        with lt1 have lt': "t_head t < t_head t'"
          by simp
        have only: "\<exists>i. t_head t \<le> i \<and> i < t_head t' \<and> k = Acatui (t_name t) '':'' i"
          if "kv s k \<noteq> None" "kv s' k = None" for k
        proof (cases "k = ?key")
          case True
          with lt' show ?thesis
            by auto
        next
          case False
          with that(1) have "kv ?s2 k \<noteq> None"
            by simp
          with IH that(2) obtain i where "t_head t + 1 \<le> i" "i < t_head t'"
            "k = Acatui (t_name t) '':'' i"
            by auto
          moreover from le1 \<open>t_head t + 1 \<le> i\<close> have "t_head t \<le> i"
            by (rule order_trans)
          ultimately show ?thesis
            by blast
        qed
        from IH le1 le2 up only show ?thesis
          by (auto intro: order_trans)
      qed
    qed
  qed
qed

text \<open>
  C2: \<^verbatim>\<open>getEnd\<close> is the topic's head when the topic has no lines, and otherwise the least
  of the tail and of every line's frontier (\<^verbatim>\<open>ihead\<close> when its recycle is positive, else
  \<^verbatim>\<open>head\<close>); and a clean pass deletes the payload of an id only if the id is at or above
  the old head and strictly below this bound.
\<close>
theorem getEnd_is_reclamation_bound:
  assumes "clean env t s = (q, t', s')"
  shows "getEnd t =
      (if t_lines t = [] then t_head t
       else Min (insert (t_tail t)
              ((\<lambda>(n, l). if l_recycle l > 0 then l_ihead l else l_head l) ` set (t_lines t))))
     \<and> (\<forall>i. kv s (Acatui (t_name t) '':'' i) \<noteq> None \<longrightarrow>
              kv s' (Acatui (t_name t) '':'' i) = None \<longrightarrow> t_head t \<le> i \<and> i < getEnd t)"
proof -
  have bound: "getEnd t =
      (if t_lines t = [] then t_head t
       else Min (insert (t_tail t)
              ((\<lambda>(n, l). if l_recycle l > 0 then l_ihead l else l_head l) ` set (t_lines t))))"
    by (simp add: getEnd_def getEnd_loop_Min)
  from assms have run: "clean_loop (getEnd t) env t s = (q, t', s')"
    by (simp add: clean_def)
  note inv = clean_loop_deletes [OF run]
  have only: "t_head t \<le> i \<and> i < getEnd t"
    if "kv s (Acatui (t_name t) '':'' i) \<noteq> None" "kv s' (Acatui (t_name t) '':'' i) = None" for i
  proof -
    let ?k = "Acatui (t_name t) '':'' i"
    from inv that obtain j where j: "t_head t \<le> j" "j < t_head t'" "?k = Acatui (t_name t) '':'' j"
      by blast
    from j(3) have "i = j"
      by (rule Acatui_inj)
    with j inv show ?thesis
      by auto
  qed
  from bound only show ?thesis
    by blast
qed

theorem getEnd_is_reclamation_bound_witness:
  "clean [] example_busy_topic example_log =
       (False, example_busy_topic\<lparr>t_head := 1\<rparr>,
        \<lparr>kv = [''T:1'' \<mapsto> [98], ''T:2'' \<mapsto> [99], ''T:head'' \<mapsto> PutUint64 1], faults = []\<rparr>)
   \<and> getEnd example_busy_topic = Min {3, 2, 1}
   \<and> t_head example_busy_topic \<le> 0 \<and> 0 < getEnd example_busy_topic"
proof -
  have before: "kv example_log (Acatui (t_name example_busy_topic) '':'' 0) \<noteq> None"
    by (simp add: example_log_def example_busy_topic_def example_topic_def Acatui_def
        FormatUint.simps digit_char_def)
  have after: "kv \<lparr>kv = [''T:1'' \<mapsto> [98], ''T:2'' \<mapsto> [99], ''T:head'' \<mapsto> PutUint64 1], faults = []\<rparr>
      (Acatui (t_name example_busy_topic) '':'' 0) = None"
    by (simp add: example_busy_topic_def example_topic_def Acatui_def
        FormatUint.simps digit_char_def)
  have lines: "t_lines example_busy_topic \<noteq> []"
    "insert (t_tail example_busy_topic)
       ((\<lambda>(n, l). if l_recycle l > 0 then l_ihead l else l_head l) ` set (t_lines example_busy_topic))
     = {3, 2, 1}"
    by (simp_all add: example_busy_topic_def example_topic_def example_lines_def)
  note bound_thm = getEnd_is_reclamation_bound [OF example_clean]
  from bound_thm lines have bound: "getEnd example_busy_topic = Min {3, 2, 1}"
    by (simp del: Min_insert)
  from bound_thm before after
  have deleted: "t_head example_busy_topic \<le> 0 \<and> 0 < getEnd example_busy_topic"
    by blast
  from example_clean bound deleted show ?thesis
    by blast
qed

text \<open>
  One iteration of a clean pass, exactly: while the head is below the bound, a closed quit
  channel stops the pass with the quit flag, a passed deadline stops it, a failing delete
  stops it, a failing write of the head anchor stops it with the key deleted and the head
  incremented, and otherwise the pass goes on from the incremented head over the store
  with the key deleted and the anchor written. The bound does not change on the way.
\<close>
lemma getEnd_head_update: "t_head t < getEnd t \<Longrightarrow> getEnd (t\<lparr>t_head := h\<rparr>) = getEnd t"
  by (cases "t_lines t") (simp_all add: getEnd_def)

lemma clean_step:
  "clean env t s =
     (if t_head t < getEnd t then
        if quit_now env then (True, t, s)
        else if deadline_now env then (False, t, s)
        else if fault_now s then (False, t, tick s)
        else if fault_now (tick s) then
          (False, t\<lparr>t_head := t_head t + 1\<rparr>,
           (tick (tick s))\<lparr>kv := (kv s)(Acatui (t_name t) '':'' (t_head t) := None)\<rparr>)
        else
          clean (tl env) (t\<lparr>t_head := t_head t + 1\<rparr>)
            ((tick (tick s))\<lparr>kv := (kv s)(Acatui (t_name t) '':'' (t_head t) := None,
                                         t_headKey t \<mapsto> PutUint64 (t_head t + 1))\<rparr>)
      else (False, t, s))"
proof (cases "t_head t < getEnd t")
  case False
  then show ?thesis
    by (simp add: clean_def clean_loop_stop)
next
  case True
  then have "getEnd (t\<lparr>t_head := t_head t + 1\<rparr>) = getEnd t"
    by (rule getEnd_head_update)
  with True show ?thesis
    by (simp add: clean_def clean_loop.simps [of "getEnd t" env t s] delData_def Del_def
        exportHead_def setData_def Set_def Let_def tick_def fault_now_def)
qed

text \<open>
  Why a pass has stopped and what it leaves behind: the quit flag needs a quit signal, a
  head below the bound needs a quit signal, a deadline or a failing write; a pass that has
  not moved the head has not changed the store; and the head anchor holds the new head, or
  lags one behind it when the last write of the anchor failed.
\<close>
lemma in_set_tl: "x \<in> set (tl xs) \<Longrightarrow> x \<in> set xs"
  by (cases xs) auto

lemma fault_now_in_faults: "fault_now s \<Longrightarrow> True \<in> set (faults s)"
  by (cases "faults s") (auto simp: fault_now_def)

lemma fault_next_in_faults: "fault_now (tick s) \<Longrightarrow> True \<in> set (faults s)"
  by (cases "faults s"; cases "tl (faults s)") (auto simp: fault_now_def tick_def)

lemma quit_now_in_env: "quit_now env \<Longrightarrow> \<exists>e \<in> set env. fst e"
  by (cases env) (auto simp: quit_now_def)

lemma deadline_now_in_env: "deadline_now env \<Longrightarrow> \<exists>e \<in> set env. snd e"
  by (cases env) (auto simp: deadline_now_def)

lemma clean_loop_stops:
  assumes "t_headKey t = t_name t @ KeyTopicHead"
    and "clean_loop ending env t s = (q, t', s')"
  shows "(q \<longrightarrow> (\<exists>e \<in> set env. fst e))
     \<and> (t_head t' < ending \<longrightarrow> q \<or> (\<exists>e \<in> set env. snd e) \<or> True \<in> set (faults s))
     \<and> (t_head t' = t_head t \<longrightarrow> kv s' = kv s)
     \<and> (t_head t' \<noteq> t_head t \<longrightarrow>
           kv s' (t_headKey t) = Some (PutUint64 (t_head t'))
           \<or> (True \<in> set (faults s)
               \<and> kv s' (t_headKey t) =
                   (if t_head t' = t_head t + 1 then kv s (t_headKey t)
                    else Some (PutUint64 (t_head t' - 1)))))"
  using assms
proof (induction ending env t s arbitrary: q t' s' rule: clean_loop.induct)
  case (1 ending env t s)
  let ?key = "Acatui (t_name t) '':'' (t_head t)"
  let ?t1 = "t\<lparr>t_head := t_head t + 1\<rparr>"
  let ?s1 = "(tick s)\<lparr>kv := (kv s)(?key := None)\<rparr>"
  let ?s2 = "(tick ?s1)\<lparr>kv := (kv ?s1)(t_headKey t \<mapsto> PutUint64 (t_head t + 1))\<rparr>"
  note wf = "1.prems"(1) and run = "1.prems"(2)
  have key_ne: "?key \<noteq> t_headKey t"
    using wf by (simp add: Acatui_not_headKey)
  show ?case
  proof (cases "t_head t < ending")
    case False
    with run have "q = False" "t' = t" "s' = s"
      by (simp_all add: clean_loop_stop)
    with False show ?thesis
      by simp
  next
    case lt: True
    have lt1: "t_head t < t_head t + 1"
      using lt by (rule word_less_succ)
    show ?thesis
    proof (cases "quit_now env")
      case True
      with lt run have "q = True" "t' = t" "s' = s"
        by (simp_all add: clean_loop.simps [of ending env t s])
      with quit_now_in_env [OF True] show ?thesis
        by simp
    next
      case nq: False
      show ?thesis
      proof (cases "deadline_now env")
        case True
        with lt nq run have "q = False" "t' = t" "s' = s"
          by (simp_all add: clean_loop.simps [of ending env t s])
        with deadline_now_in_env [OF True] show ?thesis
          by simp
      next
        case nd: False
        show ?thesis
        proof (cases "fault_now s")
          case True
          with lt nq nd run have "q = False" "t' = t" "kv s' = kv s"
            by (auto simp: clean_loop.simps [of ending env t s] delData_def Del_def tick_def)
          with fault_now_in_faults [OF True] show ?thesis
            by simp
        next
          case del_ok: False
          then have del: "delData s ?key = (None, ?s1)"
            by (simp add: delData_def Del_def)
          show ?thesis
          proof (cases "fault_now ?s1")
            case True
            then have "exportHead ?t1 ?s1 = (Some ErrInternalError, tick ?s1)"
              by (simp add: exportHead_def setData_def Set_def)
            with lt nq nd run del have res: "q = False" "t' = ?t1" "kv s' = kv ?s1"
              by (auto simp: clean_loop.simps [of ending env t s] Let_def tick_def)
            from True have "fault_now (tick s)"
              by (simp add: fault_now_def tick_def)
            then have "True \<in> set (faults s)"
              by (rule fault_next_in_faults)
            with res lt1 key_ne show ?thesis
              by auto
          next
            case False
            then have ex: "exportHead ?t1 ?s1 = (None, ?s2)"
              by (simp add: exportHead_def setData_def Set_def)
            with lt nq nd run del have rec: "clean_loop ending (tl env) ?t1 ?s2 = (q, t', s')"
              by (simp add: clean_loop.simps [of ending env t s] Let_def)
            have wf1: "t_headKey ?t1 = t_name ?t1 @ KeyTopicHead"
              using wf by simp
            have IH: "(q \<longrightarrow> (\<exists>e \<in> set (tl env). fst e))
               \<and> (t_head t' < ending \<longrightarrow> q \<or> (\<exists>e \<in> set (tl env). snd e) \<or> True \<in> set (faults ?s2))
               \<and> (t_head t' = t_head ?t1 \<longrightarrow> kv s' = kv ?s2)
               \<and> (t_head t' \<noteq> t_head ?t1 \<longrightarrow>
                     kv s' (t_headKey ?t1) = Some (PutUint64 (t_head t'))
                     \<or> (True \<in> set (faults ?s2)
                         \<and> kv s' (t_headKey ?t1) =
                             (if t_head t' = t_head ?t1 + 1 then kv ?s2 (t_headKey ?t1)
                              else Some (PutUint64 (t_head t' - 1)))))"
              using lt nq nd del ex wf1 rec
              by (intro "1.IH" [of None ?s1 ?t1 None ?s2]) simp_all
            from clean_loop_deletes [OF rec] have up: "t_head t + 1 \<le> t_head t'"
              by simp
            with lt1 have moved: "t_head t' \<noteq> t_head t"
              by auto
            have env_sub: "e \<in> set env" if "e \<in> set (tl env)" for e
              using that by (rule in_set_tl)
            have faults_sub: "True \<in> set (faults s)" if "True \<in> set (faults ?s2)"
            proof -
              from that have "True \<in> set (tl (tl (faults s)))"
                by (simp add: tick_def)
              then show ?thesis
                by (blast dest: in_set_tl)
            qed
            have c1: "q \<longrightarrow> (\<exists>e \<in> set env. fst e)"
              using IH env_sub by blast
            have c2: "t_head t' < ending \<longrightarrow> q \<or> (\<exists>e \<in> set env. snd e) \<or> True \<in> set (faults s)"
              using IH env_sub faults_sub by blast
            have c4: "kv s' (t_headKey t) = Some (PutUint64 (t_head t'))
                 \<or> (True \<in> set (faults s)
                     \<and> kv s' (t_headKey t) =
                         (if t_head t' = t_head t + 1 then kv s (t_headKey t)
                          else Some (PutUint64 (t_head t' - 1))))"
            proof (cases "t_head t' = t_head t + 1")
              case True
              with IH have "kv s' = kv ?s2"
                by simp
              with True show ?thesis
                by simp
            next
              case False
              have s2hk: "kv ?s2 (t_headKey ?t1) = Some (PutUint64 (t_head t + 1))"
                by simp
              have lag: "(if t_head t' = t_head ?t1 + 1 then kv ?s2 (t_headKey ?t1)
                          else Some (PutUint64 (t_head t' - 1))) = Some (PutUint64 (t_head t' - 1))"
              proof (cases "t_head t' = t_head ?t1 + 1")
                case True
                then have "t_head t' - 1 = t_head t + 1"
                  by simp
                with True s2hk show ?thesis
                  by (simp add: ac_simps)
              next
                case False
                then show ?thesis
                  by simp
              qed
              from False have "t_head t' \<noteq> t_head ?t1"
                by simp
              with IH have "kv s' (t_headKey ?t1) = Some (PutUint64 (t_head t'))
                \<or> (True \<in> set (faults ?s2)
                    \<and> kv s' (t_headKey ?t1) =
                       (if t_head t' = t_head ?t1 + 1 then kv ?s2 (t_headKey ?t1)
                        else Some (PutUint64 (t_head t' - 1))))"
                by blast
              then have "kv s' (t_headKey ?t1) = Some (PutUint64 (t_head t'))
                \<or> (True \<in> set (faults ?s2)
                    \<and> kv s' (t_headKey ?t1) = Some (PutUint64 (t_head t' - 1)))"
                by (simp only: lag)
              then have "kv s' (t_headKey t) = Some (PutUint64 (t_head t'))
                \<or> (True \<in> set (faults s)
                    \<and> kv s' (t_headKey t) = Some (PutUint64 (t_head t' - 1)))"
                using faults_sub by auto
              with False show ?thesis
                by (simp only: if_False)
            qed
            from c1 c2 c4 moved show ?thesis
              by blast
          qed
        qed
      qed
    qed
  qed
qed

text \<open>A pass on the example that is told to quit at its second iteration.\<close>
lemma example_clean_quit:
  "clean [(False, False), (True, False)] example_read_topic example_log =
     (True, example_read_topic\<lparr>t_head := 1\<rparr>,
      \<lparr>kv = [''T:1'' \<mapsto> [98], ''T:2'' \<mapsto> [99], ''T:head'' \<mapsto> PutUint64 1], faults = []\<rparr>)"
  by (simp add: clean_def getEnd_def example_read_topic_def example_topic_def example_lines_def
      example_log_def clean_loop.simps quit_now_def deadline_now_def delData_def Del_def
      exportHead_def setData_def Set_def fault_now_def tick_def Acatui_def FormatUint.simps
      digit_char_def fun_upd_twist)

text \<open>
  C3: a clean pass loops while the head is below the bound of \<^verbatim>\<open>getEnd\<close>; each iteration
  checks the quit channel and the deadline, deletes the key \<^verbatim>\<open>"{topic}:{head}"\<close>, then
  increments the head, then persists the new head anchor, and the pass stops on shutdown
  (with the quit flag), at the deadline, or when the delete or the anchor write fails
  (first conjunct). When the pass returns, however it was stopped: the head has only moved
  up, and not beyond the bound; the store has no key \<^verbatim>\<open>"{topic}:{i}"\<close> for any id \<open>i\<close> from the
  old head up to (not including) the new head; nothing else of the topic has changed, and
  no other key of the store but the head anchor's; the quit flag is set only after a quit
  signal, and the head is left below the bound only after a quit signal, a deadline or a
  failing write; a pass that has not moved the head has not changed the store; the head
  anchor holds the new head, or the head before the last increment when the last anchor
  write failed; and a pass that meets no quit signal, no deadline and no failing write ends
  with the head at the bound and the head anchor holding it. The topic's head key is
  \<^verbatim>\<open>name + ":head"\<close>, as \<^verbatim>\<open>newTopic\<close> and \<^verbatim>\<open>loadTopic\<close> set it.
\<close>
theorem clean_pass_deletes_reclaimed_keys:
  assumes "t_headKey t = t_name t @ KeyTopicHead"
    and "clean env t s = (q, t', s')"
  shows "clean env t s =
       (if t_head t < getEnd t then
          if quit_now env then (True, t, s)
          else if deadline_now env then (False, t, s)
          else if fault_now s then (False, t, tick s)
          else if fault_now (tick s) then
            (False, t\<lparr>t_head := t_head t + 1\<rparr>,
             (tick (tick s))\<lparr>kv := (kv s)(Acatui (t_name t) '':'' (t_head t) := None)\<rparr>)
          else
            clean (tl env) (t\<lparr>t_head := t_head t + 1\<rparr>)
              ((tick (tick s))\<lparr>kv := (kv s)(Acatui (t_name t) '':'' (t_head t) := None,
                                           t_headKey t \<mapsto> PutUint64 (t_head t + 1))\<rparr>)
        else (False, t, s))
     \<and> t_head t \<le> t_head t' \<and> (t_head t' \<le> getEnd t \<or> t_head t' = t_head t)
     \<and> (\<forall>i. t_head t \<le> i \<longrightarrow> i < t_head t' \<longrightarrow> kv s' (Acatui (t_name t) '':'' i) = None)
     \<and> (True \<notin> set (faults s) \<and> (\<forall>e \<in> set env. e = (False, False)) \<longrightarrow>
          \<not> q \<and> t_head t' = max (t_head t) (getEnd t)
          \<and> (t_head t < getEnd t \<longrightarrow> kv s' (t_headKey t) = Some (PutUint64 (getEnd t))))
     \<and> t_name t' = t_name t \<and> t_lines t' = t_lines t \<and> t_tail t' = t_tail t
     \<and> t_headKey t' = t_headKey t \<and> t_tailKey t' = t_tailKey t
     \<and> (\<forall>k. k \<noteq> t_headKey t \<longrightarrow>
            (\<forall>i. t_head t \<le> i \<longrightarrow> i < t_head t' \<longrightarrow> k \<noteq> Acatui (t_name t) '':'' i) \<longrightarrow>
            kv s' k = kv s k)
     \<and> (q \<longrightarrow> (\<exists>e \<in> set env. fst e))
     \<and> (t_head t' < getEnd t \<longrightarrow> q \<or> (\<exists>e \<in> set env. snd e) \<or> True \<in> set (faults s))
     \<and> (t_head t' = t_head t \<longrightarrow> kv s' = kv s)
     \<and> (t_head t' \<noteq> t_head t \<longrightarrow>
           kv s' (t_headKey t) = Some (PutUint64 (t_head t'))
           \<or> (True \<in> set (faults s)
               \<and> kv s' (t_headKey t) =
                   (if t_head t' = t_head t + 1 then kv s (t_headKey t)
                    else Some (PutUint64 (t_head t' - 1)))))"
proof -
  from assms(2) have run: "clean_loop (getEnd t) env t s = (q, t', s')"
    by (simp add: clean_def)
  note step = clean_step [of env t s]
  note inv = clean_loop_inv [OF assms(1) run]
  note full = clean_loop_complete [OF _ _ run]
  note stops = clean_loop_stops [OF assms(1) run]
  have a: "t_head t \<le> t_head t' \<and> (t_head t' \<le> getEnd t \<or> t_head t' = t_head t)
     \<and> (\<forall>i. t_head t \<le> i \<longrightarrow> i < t_head t' \<longrightarrow> kv s' (Acatui (t_name t) '':'' i) = None)"
    using inv by blast
  have b: "True \<notin> set (faults s) \<and> (\<forall>e \<in> set env. e = (False, False)) \<longrightarrow>
          \<not> q \<and> t_head t' = max (t_head t) (getEnd t)
          \<and> (t_head t < getEnd t \<longrightarrow> kv s' (t_headKey t) = Some (PutUint64 (getEnd t)))"
    using full by blast
  have c: "t_name t' = t_name t \<and> t_lines t' = t_lines t \<and> t_tail t' = t_tail t
     \<and> t_headKey t' = t_headKey t \<and> t_tailKey t' = t_tailKey t
     \<and> (\<forall>k. k \<noteq> t_headKey t \<longrightarrow>
            (\<forall>i. t_head t \<le> i \<longrightarrow> i < t_head t' \<longrightarrow> k \<noteq> Acatui (t_name t) '':'' i) \<longrightarrow>
            kv s' k = kv s k)"
    using inv by blast
  from step a b c stops show ?thesis
    by (intro conjI) blast+
qed

theorem clean_pass_deletes_reclaimed_keys_witness:
  "t_headKey example_read_topic = t_name example_read_topic @ KeyTopicHead
   \<and> clean [(False, False), (True, False)] example_read_topic example_log =
       (True, example_read_topic\<lparr>t_head := 1\<rparr>,
        \<lparr>kv = [''T:1'' \<mapsto> [98], ''T:2'' \<mapsto> [99], ''T:head'' \<mapsto> PutUint64 1], faults = []\<rparr>)
   \<and> kv \<lparr>kv = [''T:1'' \<mapsto> [98], ''T:2'' \<mapsto> [99], ''T:head'' \<mapsto> PutUint64 1], faults = []\<rparr>
        (Acatui (t_name example_read_topic) '':'' 0) = None
   \<and> t_head (example_read_topic\<lparr>t_head := 1\<rparr>) \<le> getEnd example_read_topic
   \<and> (\<exists>e \<in> set [(False, False), (True, False)]. fst e)
   \<and> t_headKey example_busy_topic = t_name example_busy_topic @ KeyTopicHead
   \<and> clean [] example_busy_topic example_log =
       (False, example_busy_topic\<lparr>t_head := 1\<rparr>,
        \<lparr>kv = [''T:1'' \<mapsto> [98], ''T:2'' \<mapsto> [99], ''T:head'' \<mapsto> PutUint64 1], faults = []\<rparr>)
   \<and> t_head (example_busy_topic\<lparr>t_head := 1\<rparr>) = max (t_head example_busy_topic) (getEnd example_busy_topic)"
proof -
  have wf: "t_headKey example_read_topic = t_name example_read_topic @ KeyTopicHead"
    by (simp add: example_read_topic_def example_topic_def KeyTopicHead_def)
  have start: "t_head example_read_topic \<le> 0
      \<and> (0 :: uint64) < t_head (example_read_topic\<lparr>t_head := 1\<rparr>)
      \<and> t_head (example_read_topic\<lparr>t_head := 1\<rparr>) \<noteq> t_head example_read_topic"
    by (simp add: example_read_topic_def example_topic_def)
  note quit = clean_pass_deletes_reclaimed_keys [OF wf example_clean_quit]
  from quit start
  have gone: "kv \<lparr>kv = [''T:1'' \<mapsto> [98], ''T:2'' \<mapsto> [99], ''T:head'' \<mapsto> PutUint64 1], faults = []\<rparr>
        (Acatui (t_name example_read_topic) '':'' 0) = None"
    by blast
  from quit start
  have bound: "t_head (example_read_topic\<lparr>t_head := 1\<rparr>) \<le> getEnd example_read_topic"
    by blast
  from quit have cause: "\<exists>e \<in> set [(False, False), (True, False)]. fst e"
    by blast
  have wf2: "t_headKey example_busy_topic = t_name example_busy_topic @ KeyTopicHead"
    by (simp add: example_busy_topic_def example_topic_def KeyTopicHead_def)
  have nofault: "True \<notin> set (faults example_log) \<and> (\<forall>e \<in> set ([] :: clean_env). e = (False, False))"
    by (simp add: example_log_def)
  from clean_pass_deletes_reclaimed_keys [OF wf2 example_clean] nofault
  have full: "t_head (example_busy_topic\<lparr>t_head := 1\<rparr>)
      = max (t_head example_busy_topic) (getEnd example_busy_topic)"
    by blast
  from wf example_clean_quit gone bound cause wf2 example_clean full show ?thesis
    by blast
qed

section \<open>Emptying a topic\<close>

lemma empty_lines_all:
  "empty_lines ls = (None, map (\<lambda>(n, l). (n, snd (line_empty l))) ls)"
  by (induction ls) (auto simp: line_empty_def)

text \<open>
  C6, as amended: \<^verbatim>\<open>empty\<close> on a topic empties each of its lines and then sets the topic's
  head equal to its tail, and persists the head anchor; nothing else in the store changes
  (the tail is not changed and its anchor is not written). A successful \<^verbatim>\<open>empty\<close> leaves
  head equal to tail.
\<close>
theorem topic_empty_sets_head_to_tail:
  assumes "topic_empty t s = (None, t', s')"
  shows "t_head t' = t_tail t' \<and> t_tail t' = t_tail t
     \<and> t_lines t' = map (\<lambda>(n, l). (n, snd (line_empty l))) (t_lines t)
     \<and> kv s' = (kv s)(t_headKey t \<mapsto> PutUint64 (t_tail t))"
  using assms
  by (auto simp: topic_empty_def empty_lines_all exportHead_def setData_def Set_def Let_def
      tick_def split: if_splits)

text \<open>The example state is the one the broker's own operations lead to.\<close>
lemma example_stale_reached:
  "(case newTopic ''T'' example_store of
      (Inr t, s) \<Rightarrow> mPush t s [[97], []]) =
   (Some ErrBadRequest, example_stale_topic, example_stale_store)"
  by (simp add: newTopic_def exportHead_def exportTail_def mPush_def example_store_def
      example_stale_topic_def example_topic_def example_stale_store_def setData_def Set_def
      fault_now_def tick_def Acatui_def FormatUint.simps digit_char_def KeyTopicHead_def
      KeyTopicTail_def fun_upd_twist)

lemma PutUint64_0_1: "PutUint64 0 \<noteq> PutUint64 1"
  by (simp add: PutUint64_def upt_rec_numeral)

lemma example_stale_empty:
  "topic_empty example_stale_topic example_stale_store =
     (None, example_stale_topic\<lparr>t_head := 1\<rparr>,
      \<lparr>kv = [''T:head'' \<mapsto> PutUint64 1, ''T:tail'' \<mapsto> PutUint64 0, ''T:0'' \<mapsto> [97]],
       faults = []\<rparr>)"
  by (simp add: topic_empty_def example_stale_topic_def example_topic_def example_stale_store_def
      exportHead_def setData_def Set_def fault_now_def tick_def fun_upd_twist)

theorem topic_empty_sets_head_to_tail_witness:
  "topic_empty example_stale_topic example_stale_store =
     (None, example_stale_topic\<lparr>t_head := 1\<rparr>,
      \<lparr>kv = [''T:head'' \<mapsto> PutUint64 1, ''T:tail'' \<mapsto> PutUint64 0, ''T:0'' \<mapsto> [97]],
       faults = []\<rparr>)
   \<and> t_head (example_stale_topic\<lparr>t_head := 1\<rparr>) = t_tail (example_stale_topic\<lparr>t_head := 1\<rparr>)"
  using topic_empty_sets_head_to_tail [OF example_stale_empty] example_stale_empty
  by simp

text \<open>
  The claim C6 as it is written says that the tail anchor is persisted too. On the example
  \<^verbatim>\<open>empty\<close> succeeds and the tail anchor in the store is not the tail.
\<close>
theorem topic_empty_leaves_tail_anchor:
  "fst (topic_empty example_stale_topic example_stale_store) = None
   \<and> kv (snd (snd (topic_empty example_stale_topic example_stale_store)))
        (t_tailKey example_stale_topic)
      \<noteq> Some (PutUint64 (t_tail (fst (snd (topic_empty example_stale_topic example_stale_store)))))"
  by (simp add: example_stale_empty PutUint64_0_1)
     (simp add: example_stale_topic_def example_topic_def PutUint64_0_1)

section \<open>Creating topics\<close>

lemma keys_update: "fst ` set (AList.update k v al) = insert k (fst ` set al)"
  by (induction al) auto

lemma keys_delete: "fst ` set (AList.delete k al) \<subseteq> fst ` set al"
  by (induction al) auto

lemma keys_update_present:
  "map_of al k = Some v \<Longrightarrow> fst ` set (AList.update k v' al) = fst ` set al"
proof -
  assume "map_of al k = Some v"
  then have "(k, v) \<in> set al"
    by (rule map_of_SomeD)
  then have "k \<in> fst ` set al"
    by (rule rev_image_eqI) simp
  then show ?thesis
    by (auto simp only: keys_update)
qed

lemma createTopic_topics:
  "createTopic c u name fromEtcd = (r, u') \<Longrightarrow>
   topics u' = topics u \<or> (\<exists>t. topics u' = AList.update name t (topics u))
   \<or> (\<exists>t. topics u' = AList.delete name (AList.update name t (topics u)))"
  by (auto simp: createTopic_def Let_def split: option.splits prod.splits sum.splits)

lemma createTopic_keys:
  assumes "createTopic c u name fromEtcd = (r, u')"
  shows "fst ` set (topics u') \<subseteq> insert name (fst ` set (topics u))"
proof -
  from createTopic_topics [OF assms]
  consider "topics u' = topics u"
    | t where "topics u' = AList.update name t (topics u)"
    | t where "topics u' = AList.delete name (AList.update name t (topics u))"
    by blast
  then show ?thesis
  proof cases
    case 1
    then show ?thesis
      by auto
  next
    case 2
    then show ?thesis
      by (simp only: keys_update)
  next
    case 3
    with keys_delete [of name "AList.update name t (topics u)"] show ?thesis
      by (simp only: keys_update)
  qed
qed

lemma Create_line_topics:
  assumes "TopicName qr \<noteq> []" "LineName qr \<noteq> []" "Create c u qr = Returns (r, u')"
  shows "topics u' = topics u
    \<or> (\<exists>t t1. map_of (topics u) (TopicName qr) = Some t
          \<and> topics u' = AList.update (TopicName qr) t1 (topics u))"
  using assms
  by (auto simp: Create_def split: option.splits outcome.splits prod.splits)

text \<open>
  C7, as amended: \<^verbatim>\<open>Create\<close> with an empty topic name fails with \<open>ErrBadKey\<close> and changes
  nothing; a request that \<^verbatim>\<open>Create\<close> accepts has a non-empty topic name; the only name
  \<^verbatim>\<open>Create\<close> can add to the topics map is the request's topic name, so \<^verbatim>\<open>Create\<close> never
  brings an empty name into the map. (It does not look for \<^verbatim>\<open>/\<close> or \<^verbatim>\<open>:\<close> in the name.)
\<close>
theorem Create_rejects_empty_topic_name:
  "(TopicName qr = [] \<longrightarrow> Create c u qr = Returns (Some ErrBadKey, u))
   \<and> (\<forall>r u'. Create c u qr = Returns (r, u') \<longrightarrow>
         (r = None \<longrightarrow> TopicName qr \<noteq> [])
         \<and> fst ` set (topics u') \<subseteq> insert (TopicName qr) (fst ` set (topics u))
         \<and> ([] \<in> fst ` set (topics u') \<longrightarrow> [] \<in> fst ` set (topics u)))"
proof -
  have empty: "Create c u qr = Returns (Some ErrBadKey, u)" if "TopicName qr = []"
    using that by (simp add: Create_def)
  have keys: "fst ` set (topics u') \<subseteq> insert (TopicName qr) (fst ` set (topics u))"
    if "Create c u qr = Returns (r, u')" for r u'
  proof (cases "TopicName qr = []")
    case True
    with that show ?thesis
      by (auto simp: Create_def)
  next
    case False
    show ?thesis
    proof (cases "LineName qr = []")
      case True
      with False that have "createTopic c u (TopicName qr) False = (r, u')"
        by (simp add: Create_def)
      then show ?thesis
        by (rule createTopic_keys)
    next
      case line: False
      from Create_line_topics [OF False line that]
      consider "topics u' = topics u"
        | t t1 where "map_of (topics u) (TopicName qr) = Some t"
            "topics u' = AList.update (TopicName qr) t1 (topics u)"
        by blast
      then show ?thesis
      proof cases
        case 1
        then show ?thesis
          by auto
      next
        case 2
        with keys_update_present [OF 2(1), of t1] show ?thesis
          by auto
      qed
    qed
  qed
  have accepted: "TopicName qr \<noteq> []" if "Create c u qr = Returns (None, u')" for u'
    using that by (auto simp: Create_def)
  have inv: "[] \<in> fst ` set (topics u)"
    if "Create c u qr = Returns (r, u')" "[] \<in> fst ` set (topics u')" for r u'
  proof (cases "TopicName qr = []")
    case True
    with that show ?thesis
      by (auto simp: Create_def)
  next
    case False
    with keys [OF that(1)] that(2) show ?thesis
      by auto
  qed
  from empty keys accepted inv show ?thesis
    by blast
qed

lemma example_Create_topic:
  "Create example_codec example_queue \<lparr>TopicName = ''a/b:c'', LineName = [], Recycle = 0\<rparr> =
     Returns (None,
       \<lparr>topics = [(''a/b:c'', \<lparr>t_name = ''a/b:c'', t_lines = [], t_head = 0,
                     t_headKey = ''a/b:c:head'', t_tail = 0, t_tailKey = ''a/b:c:tail''\<rparr>)],
        storage = \<lparr>kv = [''a/b:c:head'' \<mapsto> PutUint64 0, ''a/b:c:tail'' \<mapsto> PutUint64 0,
                          ''UnitedQueueKey'' \<mapsto> [1]], faults = []\<rparr>\<rparr>)"
  by (simp add: Create_def createTopic_def newTopic_def exportQueue_def genQueueStore_def
      exportHead_def exportTail_def setData_def Set_def fault_now_def tick_def
      example_codec_def example_queue_def example_store_def KeyTopicHead_def KeyTopicTail_def
      StorageKeyWord_def Let_def)

theorem Create_rejects_empty_topic_name_witness:
  "TopicName \<lparr>TopicName = [], LineName = ''L'', Recycle = 0\<rparr> = []
   \<and> Create example_codec example_queue \<lparr>TopicName = [], LineName = ''L'', Recycle = 0\<rparr> =
       Returns (Some ErrBadKey, example_queue)
   \<and> TopicName \<lparr>TopicName = ''a/b:c'', LineName = [], Recycle = 0\<rparr> \<noteq> []"
  using Create_rejects_empty_topic_name
    [of "\<lparr>TopicName = [], LineName = ''L'', Recycle = 0\<rparr>" example_codec example_queue]
    Create_rejects_empty_topic_name
    [of "\<lparr>TopicName = ''a/b:c'', LineName = [], Recycle = 0\<rparr>" example_codec example_queue]
    example_Create_topic
  by simp

text \<open>
  The claim C7 as it is written says that an accepted name has neither \<^verbatim>\<open>/\<close> nor \<^verbatim>\<open>:\<close>.
  \<^verbatim>\<open>Create\<close> accepts the topic name \<^verbatim>\<open>a/b:c\<close> and enters it in the map.
\<close>
theorem Create_accepts_separators:
  "Create example_codec example_queue \<lparr>TopicName = ''a/b:c'', LineName = [], Recycle = 0\<rparr> =
     Returns (None,
       \<lparr>topics = [(''a/b:c'', \<lparr>t_name = ''a/b:c'', t_lines = [], t_head = 0,
                     t_headKey = ''a/b:c:head'', t_tail = 0, t_tailKey = ''a/b:c:tail''\<rparr>)],
        storage = \<lparr>kv = [''a/b:c:head'' \<mapsto> PutUint64 0, ''a/b:c:tail'' \<mapsto> PutUint64 0,
                          ''UnitedQueueKey'' \<mapsto> [1]], faults = []\<rparr>\<rparr>)
   \<and> CHR ''/'' \<in> set ''a/b:c'' \<and> CHR '':'' \<in> set ''a/b:c''"
  using example_Create_topic by simp

section \<open>Routing of request keys\<close>

text \<open>\<^verbatim>\<open>strings.Split\<close> gives one part more than there are separators.\<close>
lemma Split_not_Nil: "Split s sep \<noteq> []"
  by (induction s) (auto split: list.splits)

lemma length_Split: "length (Split s sep) = Suc (count_list s sep)"
  by (induction s) (auto simp: Split_not_Nil split: list.splits)

text \<open>
  C8: \<^verbatim>\<open>Pop\<close> and \<^verbatim>\<open>MultiPop\<close> fail with \<open>ErrBadKey\<close>, and change nothing, unless the key
  splits on \<^verbatim>\<open>/\<close> into exactly two parts; \<^verbatim>\<open>Confirm\<close> fails with \<open>ErrBadKey\<close>, and changes
  nothing, unless the key splits into exactly three parts and the third parses as an
  unsigned decimal integer.
\<close>
theorem malformed_keys_fail_with_BadKey:
  "(length (Split name CHR ''/'') \<noteq> 2 \<longrightarrow>
      Pop u name now = (Inl ErrBadKey, u) \<and> MultiPop u name n now = (Inl ErrBadKey, u))
   \<and> (length (Split key CHR ''/'') \<noteq> 3 \<or> ParseUint (Split key CHR ''/'' ! 2) = None \<longrightarrow>
      Confirm u key = (Some ErrBadKey, u))"
  by (auto simp: Pop_def MultiPop_def Confirm_def Let_def)

theorem malformed_keys_fail_with_BadKey_witness:
  "length (Split ''T'' CHR ''/'') \<noteq> 2
   \<and> Pop example_queue ''T'' 0 = (Inl ErrBadKey, example_queue)
   \<and> MultiPop example_queue ''T'' 5 0 = (Inl ErrBadKey, example_queue)
   \<and> length (Split ''T/L/abc'' CHR ''/'') = 3 \<and> ParseUint (Split ''T/L/abc'' CHR ''/'' ! 2) = None
   \<and> Confirm example_queue ''T/L/abc'' = (Some ErrBadKey, example_queue)"
proof -
  have parts: "length (Split ''T'' CHR ''/'') \<noteq> 2" "length (Split ''T/L/abc'' CHR ''/'') = 3"
    by simp_all
  have id: "ParseUint (Split ''T/L/abc'' CHR ''/'' ! 2) = None"
    by (simp add: ParseUint_def is_digit_def)
  from malformed_keys_fail_with_BadKey [of "''T''" example_queue 0 5 "''T/L/abc''"] parts id
  show ?thesis
    by simp
qed

section \<open>Creating lines\<close>

lemma map_of_update_same: "map_of (AList.update k v al) k = Some v"
  by (simp add: update_conv')

text \<open>
  C10: after a successful \<^verbatim>\<open>createLine\<close> the topic has the line under its name, with
  \<^verbatim>\<open>head\<close> and \<^verbatim>\<open>ihead\<close> equal to the topic's head at creation, no in-flight record and an
  empty \<^verbatim>\<open>imap\<close>; the topic's own head and tail are as before. So the first pop on the new
  line, when the topic is not empty and the payload at the topic's head is read from the
  store, delivers the id of the topic's head with its payload.
\<close>
theorem createLine_starts_at_topic_head:
  assumes "createLine c t name recycle fromEtcd s = Returns (None, t', s')"
  shows "(\<exists>l. map_of (t_lines t') name = Some l \<and> l_name l = name \<and> l_recycle l = recycle
            \<and> l_head l = t_head t \<and> l_ihead l = t_head t
            \<and> l_inflight l = [] \<and> l_imap l = Map.empty)
     \<and> t_name t' = t_name t \<and> t_head t' = t_head t \<and> t_tail t' = t_tail t
     \<and> (\<forall>now st data.
           t_head t \<noteq> t_tail t \<and> \<not> fault_now st
           \<and> kv st (Acatui (t_name t) '':'' (t_head t)) = Some data
           \<longrightarrow> fst (pop t' name now st) = Inr (t_head t, data))"
proof -
  let ?l = "\<lparr>l_name = name, l_head = t_head t, l_recycle = recycle,
             l_recycleKey = t_name t @ ''/'' @ name @ KeyLineRecycle,
             l_inflight = [], l_ihead = t_head t, l_imap = Map.empty\<rparr>"
  from assms have t': "t' = t\<lparr>t_lines := AList.update name ?l (t_lines t)\<rparr>"
    by (auto simp: createLine_def newLine_def Let_def
        split: option.splits prod.splits sum.splits)
  then have look: "map_of (t_lines t') name = Some ?l"
    by (simp add: map_of_update_same)
  have first_pop: "fst (pop t' name now st) = Inr (t_head t, data)"
    if "t_head t \<noteq> t_tail t" "\<not> fault_now st"
      "kv st (Acatui (t_name t) '':'' (t_head t)) = Some data" for now st data
    using that look t'
    by (simp add: pop_def line_pop_def line_pop_head_def topic_getData_def getData_def Get_def
        split: prod.splits)
  from t' look first_pop show ?thesis
    by auto
qed

text \<open>A third line for the example topic.\<close>
lemma example_createLine:
  "createLine example_codec example_busy_topic ''L3'' 0 False example_log =
     Returns (None,
       example_busy_topic\<lparr>t_lines := example_lines @
         [(''L3'', \<lparr>l_name = ''L3'', l_head = 0, l_recycle = 0,
                   l_recycleKey = ''T/L3:recycle'', l_inflight = [], l_ihead = 0,
                   l_imap = Map.empty\<rparr>)]\<rparr>,
       \<lparr>kv = (kv example_log)(''T/L3'' \<mapsto> [3], ''T/L3:recycle'' \<mapsto> [48, 115], ''T'' \<mapsto> [2]),
        faults = []\<rparr>)"
  by (simp add: createLine_def newLine_def exportLine_def exportRecycle_def exportTopic_def
      genTopicStore_def setData_def Set_def fault_now_def tick_def example_codec_def
      example_busy_topic_def example_topic_def example_lines_def example_log_def
      KeyLineRecycle_def Let_def)

theorem createLine_starts_at_topic_head_witness:
  "createLine example_codec example_busy_topic ''L3'' 0 False example_log =
     Returns (None,
       example_busy_topic\<lparr>t_lines := example_lines @
         [(''L3'', \<lparr>l_name = ''L3'', l_head = 0, l_recycle = 0,
                   l_recycleKey = ''T/L3:recycle'', l_inflight = [], l_ihead = 0,
                   l_imap = Map.empty\<rparr>)]\<rparr>,
       \<lparr>kv = (kv example_log)(''T/L3'' \<mapsto> [3], ''T/L3:recycle'' \<mapsto> [48, 115], ''T'' \<mapsto> [2]),
        faults = []\<rparr>)
   \<and> t_head example_busy_topic \<noteq> t_tail example_busy_topic
   \<and> fst (pop (example_busy_topic\<lparr>t_lines := example_lines @
         [(''L3'', \<lparr>l_name = ''L3'', l_head = 0, l_recycle = 0,
                   l_recycleKey = ''T/L3:recycle'', l_inflight = [], l_ihead = 0,
                   l_imap = Map.empty\<rparr>)]\<rparr>) ''L3'' 7
         \<lparr>kv = (kv example_log)(''T/L3'' \<mapsto> [3], ''T/L3:recycle'' \<mapsto> [48, 115], ''T'' \<mapsto> [2]),
          faults = []\<rparr>) = Inr (t_head example_busy_topic, [97])"
proof -
  let ?st = "\<lparr>kv = (kv example_log)(''T/L3'' \<mapsto> [3], ''T/L3:recycle'' \<mapsto> [48, 115], ''T'' \<mapsto> [2]),
          faults = []\<rparr>"
  have pre: "t_head example_busy_topic \<noteq> t_tail example_busy_topic \<and> \<not> fault_now ?st
      \<and> kv ?st (Acatui (t_name example_busy_topic) '':'' (t_head example_busy_topic)) = Some [97]"
    by (simp add: example_busy_topic_def example_topic_def example_log_def fault_now_def
        Acatui_def FormatUint.simps digit_char_def)
  from createLine_starts_at_topic_head [OF example_createLine] pre example_createLine
  show ?thesis
    by blast
qed

section \<open>Recovery\<close>

text \<open>Recovery only reads the store.\<close>
lemma Get_kv: "Get s k = (r, s') \<Longrightarrow> kv s' = kv s"
  by (auto simp: Get_def tick_def split: if_splits option.splits)

lemma loadLine_kv: "loadLine c t n v s = (r, s') \<Longrightarrow> kv s' = kv s"
  by (auto simp: loadLine_def getData_def Let_def dest: Get_kv
      split: prod.splits sum.splits option.splits)

lemma loadLines_kv: "loadLines c t ns ls s = (ls', s') \<Longrightarrow> kv s' = kv s"
proof (induction ns arbitrary: ls s)
  case Nil
  then show ?case by simp
next
  case (Cons n ns)
  obtain r s1 where g: "Get s (t_name t @ ''/'' @ n) = (r, s1)"
    by (cases "Get s (t_name t @ ''/'' @ n)") auto
  then have k1: "kv s1 = kv s"
    by (rule Get_kv)
  show ?case
  proof (cases r)
    case (Inl e)
    with Cons.prems g have "loadLines c t ns ls s1 = (ls', s')"
      by simp
    with Cons.IH k1 show ?thesis
      by simp
  next
    case (Inr d)
    show ?thesis
    proof (cases "length d = 0 \<or> decLine c d = None")
      case True
      with Cons.prems g Inr have "loadLines c t ns ls s1 = (ls', s')"
        by (auto split: if_splits)
      with Cons.IH k1 show ?thesis
        by simp
    next
      case False
      then obtain v where v: "decLine c d = Some v" and d: "length d \<noteq> 0"
        by auto
      obtain r2 s2 where l: "loadLine c t n v s1 = (r2, s2)"
        by (cases "loadLine c t n v s1") auto
      then have k2: "kv s2 = kv s1"
        by (rule loadLine_kv)
      from Cons.prems g Inr v d l
      have "\<exists>ls2. loadLines c t ns ls2 s2 = (ls', s')"
        by (cases r2) auto
      with Cons.IH k1 k2 show ?thesis
        by auto
    qed
  qed
qed

text \<open>
  When every head and tail anchor in the store has its 8 bytes, recovery returns, and
  without an error.
\<close>
lemma loadTopic_returns:
  assumes "\<forall>v. kv s (n @ KeyTopicHead) = Some v \<or> kv s (n @ KeyTopicTail) = Some v \<longrightarrow> 8 \<le> length v"
  shows "\<exists>r s'. loadTopic c n ls s = Returns (r, s') \<and> kv s' = kv s"
proof -
  obtain r1 s1 where g1: "Get s (n @ KeyTopicHead) = (r1, s1)"
    by (cases "Get s (n @ KeyTopicHead)") auto
  then have k1: "kv s1 = kv s"
    by (rule Get_kv)
  show ?thesis
  proof (cases r1)
    case (Inl e)
    with g1 k1 show ?thesis
      by (simp add: loadTopic_def)
  next
    case (Inr hd')
    with g1 have "kv s (n @ KeyTopicHead) = Some hd'"
      by (auto simp: Get_def split: if_splits option.splits)
    with assms have "8 \<le> length hd'"
      by blast
    then obtain h where h: "Uint64 hd' = Some h"
      by (auto simp: Uint64_def)
    obtain r2 s2 where g2: "Get s1 (n @ KeyTopicTail) = (r2, s2)"
      by (cases "Get s1 (n @ KeyTopicTail)") auto
    then have k2: "kv s2 = kv s1"
      by (rule Get_kv)
    show ?thesis
    proof (cases r2)
      case (Inl e)
      with g1 g2 k1 k2 h \<open>r1 = Inr hd'\<close> show ?thesis
        by (simp add: loadTopic_def)
    next
      case tl: (Inr tl')
      with g2 k1 have "kv s (n @ KeyTopicTail) = Some tl'"
        by (auto simp: Get_def split: if_splits option.splits)
      with assms have "8 \<le> length tl'"
        by blast
      then obtain tv where tv: "Uint64 tl' = Some tv"
        by (auto simp: Uint64_def)
      let ?t = "\<lparr>t_name = n, t_lines = [], t_head = h, t_headKey = n @ KeyTopicHead,
                 t_tail = tv, t_tailKey = n @ KeyTopicTail\<rparr>"
      obtain lines s3 where ll: "loadLines c ?t ls [] s2 = (lines, s3)"
        by (cases "loadLines c ?t ls [] s2") auto
      then have "kv s3 = kv s2"
        by (rule loadLines_kv)
      with g1 g2 k1 k2 h tv tl ll \<open>r1 = Inr hd'\<close> show ?thesis
        by (simp add: loadTopic_def)
    qed
  qed
qed

lemma loadTopics_returns:
  assumes "\<forall>n v. kv (storage u) (n @ KeyTopicHead) = Some v
              \<or> kv (storage u) (n @ KeyTopicTail) = Some v \<longrightarrow> 8 \<le> length v"
  shows "\<exists>u'. loadTopics c names u = Returns u' \<and> kv (storage u') = kv (storage u)"
  using assms
proof (induction names arbitrary: u)
  case Nil
  then show ?case by simp
next
  case (Cons n names)
  obtain r s1 where g: "Get (storage u) n = (r, s1)"
    by (cases "Get (storage u) n") auto
  then have k1: "kv s1 = kv (storage u)"
    by (rule Get_kv)
  have step: "\<exists>u'. loadTopics c names u1 = Returns u' \<and> kv (storage u') = kv (storage u)"
    if "kv (storage u1) = kv (storage u)" for u1
    using Cons.IH [of u1] Cons.prems that by simp
  have skip: "\<exists>u'. loadTopics c names (u\<lparr>storage := s1\<rparr>) = Returns u'
      \<and> kv (storage u') = kv (storage u)"
    using k1 by (intro step) simp
  show ?case
  proof (cases r)
    case (Inl e)
    with g skip show ?thesis
      by simp
  next
    case (Inr d)
    show ?thesis
    proof (cases "length d = 0 \<or> decTopic c d = None")
      case True
      with g Inr skip show ?thesis
        by (auto split: if_splits)
    next
      case False
      then obtain ls where ls: "decTopic c d = Some ls" and d: "length d \<noteq> 0"
        by auto
      from Cons.prems k1
      have "\<forall>v. kv s1 (n @ KeyTopicHead) = Some v \<or> kv s1 (n @ KeyTopicTail) = Some v
          \<longrightarrow> 8 \<le> length v"
        by simp
      from loadTopic_returns [OF this, of c ls]
      obtain r2 s2 where lt: "loadTopic c n ls s1 = Returns (r2, s2)" and k2: "kv s2 = kv s1"
        by blast
      show ?thesis
      proof (cases r2)
        case (Inl e)
        with g Inr ls d lt step [of "u\<lparr>storage := s2\<rparr>"] k1 k2 show ?thesis
          by simp
      next
        case t: (Inr t)
        with g Inr ls d lt
          step [of "u\<lparr>topics := AList.update n t (topics u), storage := s2\<rparr>"] k1 k2
        show ?thesis
          by simp
      qed
    qed
  qed
qed

lemma loadQueue_returns:
  assumes "\<forall>n v. kv (storage u) (n @ KeyTopicHead) = Some v
              \<or> kv (storage u) (n @ KeyTopicTail) = Some v \<longrightarrow> 8 \<le> length v"
  shows "\<exists>u'. loadQueue c u = Returns (None, u') \<and> kv (storage u') = kv (storage u)"
proof -
  obtain r s1 where g: "Get (storage u) StorageKeyWord = (r, s1)"
    by (cases "Get (storage u) StorageKeyWord") auto
  then have k1: "kv s1 = kv (storage u)"
    by (rule Get_kv)
  show ?thesis
  proof (cases r)
    case (Inl e)
    with g k1 show ?thesis
      by (simp add: loadQueue_def)
  next
    case (Inr d)
    show ?thesis
    proof (cases "decQueue c d")
      case None
      with g Inr k1 show ?thesis
        by (simp add: loadQueue_def)
    next
      case (Some names)
      from assms k1
      have "\<forall>n v. kv (storage (u\<lparr>storage := s1\<rparr>)) (n @ KeyTopicHead) = Some v
              \<or> kv (storage (u\<lparr>storage := s1\<rparr>)) (n @ KeyTopicTail) = Some v \<longrightarrow> 8 \<le> length v"
        by simp
      from loadTopics_returns [OF this, of c names]
      obtain u' where "loadTopics c names (u\<lparr>storage := s1\<rparr>) = Returns u'"
        "kv (storage u') = kv s1"
        by auto
      with g Inr Some k1 show ?thesis
        by (simp add: loadQueue_def)
    qed
  qed
qed

text \<open>Without a broker catalog the broker starts with the topics it was given: none.\<close>
lemma loadQueue_absent_catalog:
  "kv (storage u) StorageKeyWord = None \<Longrightarrow>
   loadQueue c u = Returns (None, u\<lparr>storage := tick (storage u)\<rparr>)"
  by (simp add: loadQueue_def Get_def)

lemma loadQueue_no_error: "loadQueue c u \<noteq> Returns (Some e, u')"
  by (auto simp: loadQueue_def split: prod.splits sum.splits option.splits outcome.splits)

text \<open>
  A listed topic without catalog, without head anchor or without tail anchor is skipped,
  and the rest of the list is loaded.
\<close>
lemma loadTopic_fails_without_anchor:
  assumes "kv s (n @ KeyTopicHead) = None
     \<or> (kv s (n @ KeyTopicTail) = None \<and> (\<forall>v. kv s (n @ KeyTopicHead) = Some v \<longrightarrow> 8 \<le> length v))"
  shows "\<exists>e s'. loadTopic c n ls s = Returns (Inl e, s') \<and> kv s' = kv s"
proof -
  obtain r1 s1 where g1: "Get s (n @ KeyTopicHead) = (r1, s1)"
    by (cases "Get s (n @ KeyTopicHead)") auto
  then have k1: "kv s1 = kv s"
    by (rule Get_kv)
  show ?thesis
  proof (cases r1)
    case (Inl e)
    with g1 k1 show ?thesis
      by (simp add: loadTopic_def)
  next
    case (Inr hd')
    with g1 have present: "kv s (n @ KeyTopicHead) = Some hd'"
      by (auto simp: Get_def split: if_splits option.splits)
    with assms have tail: "kv s (n @ KeyTopicTail) = None" and "8 \<le> length hd'"
      by auto
    then obtain h where h: "Uint64 hd' = Some h"
      by (auto simp: Uint64_def)
    from tail k1 have "Get s1 (n @ KeyTopicTail) = (Inl ErrStorage, tick s1)"
      by (simp add: Get_def)
    with g1 Inr h k1 show ?thesis
      by (simp add: loadTopic_def tick_def)
  qed
qed

lemma loadTopics_skips_unloadable:
  assumes "kv (storage u) n = None \<or> kv (storage u) (n @ KeyTopicHead) = None
     \<or> (kv (storage u) (n @ KeyTopicTail) = None
         \<and> (\<forall>v. kv (storage u) (n @ KeyTopicHead) = Some v \<longrightarrow> 8 \<le> length v))"
  shows "\<exists>s1. kv s1 = kv (storage u)
     \<and> loadTopics c (n # rest) u = loadTopics c rest (u\<lparr>storage := s1\<rparr>)"
proof -
  obtain r s1 where g: "Get (storage u) n = (r, s1)"
    by (cases "Get (storage u) n") auto
  then have k1: "kv s1 = kv (storage u)"
    by (rule Get_kv)
  show ?thesis
  proof (cases "\<exists>d ls. r = Inr d \<and> length d \<noteq> 0 \<and> decTopic c d = Some ls")
    case False
    with g k1 show ?thesis
      by (cases r) (auto split: option.splits)
  next
    case True
    then obtain d ls where r: "r = Inr d" "length d \<noteq> 0" "decTopic c d = Some ls"
      by blast
    with g have "kv (storage u) n \<noteq> None"
      by (auto simp: Get_def split: if_splits option.splits)
    with assms k1 have "kv s1 (n @ KeyTopicHead) = None
     \<or> (kv s1 (n @ KeyTopicTail) = None \<and> (\<forall>v. kv s1 (n @ KeyTopicHead) = Some v \<longrightarrow> 8 \<le> length v))"
      by simp
    from loadTopic_fails_without_anchor [OF this, of c ls]
    obtain e s2 where lt: "loadTopic c n ls s1 = Returns (Inl e, s2)" and k2: "kv s2 = kv s1"
      by blast
    with g r have "loadTopics c (n # rest) u = loadTopics c rest (u\<lparr>storage := s2\<rparr>)"
      by simp
    with k1 k2 show ?thesis
      by auto
  qed
qed

text \<open>
  C9: recovery should never fail the broker as a whole. On a store whose head anchor for
  a listed topic is shorter than 8 bytes, \<^verbatim>\<open>loadTopic\<close> decodes the anchor without
  looking at its length, and \<^verbatim>\<open>NewUnitedQueue\<close> panics instead of skipping the topic.
\<close>
theorem loadQueue_panics_on_short_anchor:
  "NewUnitedQueue example_codec example_short_anchor = Panics"
  by (simp add: NewUnitedQueue_def loadQueue_def loadTopic_def Get_def fault_now_def tick_def
      Uint64_def example_codec_def example_short_anchor_def StorageKeyWord_def KeyTopicHead_def)

section \<open>Topics keep their keys\<close>

text \<open>
  The two functions that build a topic give it the head key \<^verbatim>\<open>name + ":head"\<close> and the tail
  key \<^verbatim>\<open>name + ":tail"\<close>, and no operation on a topic changes its name or its keys.
\<close>
lemma newTopic_keys:
  "newTopic name s = (Inr t, s') \<Longrightarrow>
   t_name t = name \<and> t_headKey t = t_name t @ KeyTopicHead \<and> t_tailKey t = t_name t @ KeyTopicTail"
  by (auto simp: newTopic_def Let_def split: prod.splits option.splits)

lemma loadTopic_keys:
  "loadTopic c name ls s = Returns (Inr t, s') \<Longrightarrow>
   t_name t = name \<and> t_headKey t = t_name t @ KeyTopicHead \<and> t_tailKey t = t_name t @ KeyTopicTail"
  by (auto simp: loadTopic_def Let_def split: prod.splits option.splits sum.splits)

lemma mPush_loop_keys:
  "mPush_loop old t s datas = (r, t', s') \<Longrightarrow>
   t_name t' = t_name t \<and> t_headKey t' = t_headKey t \<and> t_tailKey t' = t_tailKey t"
  by (induction datas arbitrary: t s) (auto split: if_splits prod.splits option.splits)

lemma topic_operations_keep_keys:
  "push t s data = (r, t', s') \<Longrightarrow> t_name t' = t_name t \<and> t_headKey t' = t_headKey t"
  "mPush t s datas = (r, t', s') \<Longrightarrow> t_name t' = t_name t \<and> t_headKey t' = t_headKey t"
  "topic_empty t s = (r, t', s') \<Longrightarrow> t_name t' = t_name t \<and> t_headKey t' = t_headKey t"
  "createLine c t n d f s = Returns (r, t', s') \<Longrightarrow> t_name t' = t_name t \<and> t_headKey t' = t_headKey t"
  "clean env t s = (q, t', s') \<Longrightarrow> t_name t' = t_name t \<and> t_headKey t' = t_headKey t"
proof -
  show "push t s data = (r, t', s') \<Longrightarrow> t_name t' = t_name t \<and> t_headKey t' = t_headKey t"
    by (auto simp: push_def Let_def split: prod.splits option.splits)
  show "mPush t s datas = (r, t', s') \<Longrightarrow> t_name t' = t_name t \<and> t_headKey t' = t_headKey t"
    by (auto simp: mPush_def Let_def split: prod.splits option.splits dest: mPush_loop_keys)
  show "topic_empty t s = (r, t', s') \<Longrightarrow> t_name t' = t_name t \<and> t_headKey t' = t_headKey t"
    by (auto simp: topic_empty_def Let_def split: prod.splits option.splits)
  show "createLine c t n d f s = Returns (r, t', s') \<Longrightarrow>
      t_name t' = t_name t \<and> t_headKey t' = t_headKey t"
    by (auto simp: createLine_def Let_def split: prod.splits option.splits sum.splits)
  show "clean env t s = (q, t', s') \<Longrightarrow> t_name t' = t_name t \<and> t_headKey t' = t_headKey t"
    using clean_loop_deletes [of "getEnd t" env t s q t' s'] by (simp add: clean_def)
qed

section \<open>The tail anchor of a batch\<close>

text \<open>
  \<^verbatim>\<open>mPush\<close> writes the tail anchor once, after the whole batch: a successful batch of \<open>n\<close>
  payloads leaves the tail \<open>n\<close> higher and the anchor holding it, and a failing batch
  leaves the anchor in the store as it was.
\<close>
lemma Acatui_not_tailKey: "Acatui name '':'' i \<noteq> name @ KeyTopicTail"
proof
  assume "Acatui name '':'' i = name @ KeyTopicTail"
  then have "FormatUint (unat i) = ''tail''"
    by (simp add: Acatui_def KeyTopicTail_def)
  then have "last (FormatUint (unat i)) = CHR ''l''"
    by simp
  then have "digit_char (unat i mod 10) = CHR ''l''"
    by (simp add: last_FormatUint)
  moreover have "is_digit (digit_char (unat i mod 10))"
    by (simp add: is_digit_digit_char)
  ultimately show False
    by (simp add: is_digit_def)
qed

lemma mPush_loop_anchor:
  assumes "t_tailKey t = t_name t @ KeyTopicTail"
    and "mPush_loop old t s datas = (r, t', s')"
  shows "kv s' (t_tailKey t) = kv s (t_tailKey t)
     \<and> (r = None \<longrightarrow> t_tail t' = t_tail t + word_of_nat (length datas))"
  using assms
proof (induction datas arbitrary: t s)
  case Nil
  then show ?case by simp
next
  case (Cons d ds)
  let ?key = "Acatui (t_name t) '':'' (t_tail t)"
  let ?t1 = "t\<lparr>t_tail := t_tail t + 1\<rparr>"
  let ?s1 = "(tick s)\<lparr>kv := (kv s)(?key \<mapsto> d)\<rparr>"
  have key: "?key \<noteq> t_tailKey t"
    using Cons.prems(1) by (simp add: Acatui_not_tailKey)
  show ?case
  proof (cases "d = [] \<or> fault_now s")
    case True
    with Cons.prems(2) show ?thesis
      by (auto simp: setData_def Set_def tick_def split: if_splits)
  next
    case False
    with Cons.prems(2) have rec: "mPush_loop old ?t1 ?s1 ds = (r, t', s')"
      by (simp add: setData_def Set_def)
    have "t_tailKey ?t1 = t_name ?t1 @ KeyTopicTail"
      using Cons.prems(1) by simp
    from Cons.IH [OF this rec] key show ?thesis
      by simp
  qed
qed

lemma mPush_publishes_tail_once:
  assumes "t_tailKey t = t_name t @ KeyTopicTail"
    and "mPush t s datas = (r, t', s')"
  shows "(r = None \<longrightarrow> t_tail t' = t_tail t + word_of_nat (length datas)
            \<and> kv s' (t_tailKey t) = Some (PutUint64 (t_tail t')))
     \<and> (r \<noteq> None \<longrightarrow> kv s' (t_tailKey t) = kv s (t_tailKey t))"
proof -
  obtain r1 t1 s1 where loop: "mPush_loop (t_tail t) t s datas = (r1, t1, s1)"
    by (cases "mPush_loop (t_tail t) t s datas") auto
  note anchor = mPush_loop_anchor [OF assms(1) loop]
  have keys: "t_tailKey t1 = t_tailKey t"
    using mPush_loop_keys [OF loop] by simp
  show ?thesis
  proof (cases r1)
    case (Some e)
    with loop assms(2) anchor show ?thesis
      by (auto simp: mPush_def)
  next
    case None
    with loop assms(2) anchor keys show ?thesis
      by (auto simp: mPush_def exportTail_def setData_def Set_def tick_def split: if_splits)
  qed
qed

end
